theory Spec2Isabelle
  imports Complex_Main "HOL-Library.Product_Lexorder"
begin

section \<open>Data model (src/queue/types.ts)\<close>

text \<open>
  A JavaScript \<open>number\<close>: a finite value, \<open>NaN\<close> or one of the two infinities. The
  finite values are taken as reals, of which every double is one, and the two zeros are
  one value (they are \<open>===\<close> and print alike). The queue compares priorities, reads
  the sign of the difference of two of them and prints them; the rounding of a difference
  of doubles never changes its sign, so the real difference stands for it.
\<close>

datatype number = Finite real | NaN | PosInfinity | NegInfinity

text \<open>
  A \<open>Date\<close>: its time value is a whole number of milliseconds since the epoch, at
  most 8640000000000000 either side of it, or \<open>NaN\<close>, which makes it an
  \<open>Invalid Date\<close>.
\<close>

datatype date = Date_at int | Invalid_Date

text \<open>
  A \<open>QueueItem<T>\<close>. The identifier is the string \<open>uuidv4()\<close> returned, and
  \<open>addedAt\<close> is a \<open>Date\<close>: a valid one when \<open>enqueue\<close> built it, any when the
  item was loaded from a file. The priority is any number: \<open>enqueue\<close> stores the one
  it is given, and the command line passes the result of \<open>parseInt\<close>, which may be
  \<open>NaN\<close>. The two optional numeric fields are always present, since \<open>enqueue\<close>, the
  only method of the queue that creates an item, sets both; \<open>processingAttempts\<close> is
  an integer, set to \<open>0\<close> and then only incremented.
\<close>

record 'a queue_item =
  item_id :: string
  data :: 'a
  addedAt :: date
  priority :: number
  processingAttempts :: int

text \<open>\<open>QueueOptions\<close> as the caller passes them: every field may be left out.\<close>

record queue_options =
  opt_maxSize :: "int option"
  opt_retryLimit :: "int option"
  opt_priorityEnabled :: "bool option"

text \<open>\<open>Required<QueueOptions>\<close>, the options a queue holds after construction.\<close>

record required_options =
  maxSize :: int
  retryLimit :: int
  priorityEnabled :: bool

text \<open>
  What awaiting a \<open>QueueProcessor<T>\<close> gives: the promise resolves to a boolean, or it
  rejects and the \<open>await\<close> throws.
\<close>

datatype processor_result = Resolves bool | Rejects

datatype error =
    QueueFull
  | NoStorageAdapter
  | DuplicateQueue string
  | WriteFailed
  | ReadFailed
  | SyntaxError
  | TypeError

text \<open>
  The state of a \<open>Queue<T>\<close>. A JavaScript \<open>Map\<close> and \<open>Set\<close> iterate in insertion
  order and \<open>dequeue\<close> depends on it, so \<open>items\<close> is an association list and
  \<open>processing\<close> a list; the operations below keep keys and members unique as \<open>Map\<close>
  and \<open>Set\<close> do. The storage adapter is the \<open>FileStorageAdapter\<close>, known by its file path.
\<close>

record 'a queue =
  items :: "(string \<times> 'a queue_item) list"
  processing :: "string list"
  options :: required_options
  processors :: "('a queue_item \<Rightarrow> processor_result) list"
  storageAdapter :: "string option"

section \<open>JavaScript containers and operators used by the queue\<close>

text \<open>\<open>Map.prototype.set\<close>: an existing key keeps its place, a new key goes last.\<close>

fun map_set :: "string \<Rightarrow> 'v \<Rightarrow> (string \<times> 'v) list \<Rightarrow> (string \<times> 'v) list" where
  "map_set k v [] = [(k, v)]"
| "map_set k v ((k', v') # m) = (if k' = k then (k, v) # m else (k', v') # map_set k v m)"

definition map_delete :: "string \<Rightarrow> (string \<times> 'v) list \<Rightarrow> (string \<times> 'v) list" where
  "map_delete k m = filter (\<lambda>e. fst e \<noteq> k) m"

definition map_get :: "(string \<times> 'v) list \<Rightarrow> string \<Rightarrow> 'v option" where
  "map_get m k = map_of m k"

definition map_values :: "(string \<times> 'v) list \<Rightarrow> 'v list" where
  "map_values m = map snd m"

definition set_has :: "string list \<Rightarrow> string \<Rightarrow> bool" where
  "set_has s x = (x \<in> set s)"

definition set_add :: "string \<Rightarrow> string list \<Rightarrow> string list" where
  "set_add x s = (if x \<in> set s then s else s @ [x])"

definition set_delete :: "string \<Rightarrow> string list \<Rightarrow> string list" where
  "set_delete x s = removeAll x s"

text \<open>
  \<open>a || b\<close> on an optional number and on an optional boolean: \<open>undefined\<close>, \<open>0\<close> and
  \<open>false\<close> are falsy and give the right operand.
\<close>

definition or_number :: "int option \<Rightarrow> int \<Rightarrow> int" where
  "or_number v d = (case v of None \<Rightarrow> d | Some n \<Rightarrow> if n = 0 then d else n)"

definition or_boolean :: "bool option \<Rightarrow> bool \<Rightarrow> bool" where
  "or_boolean v d = (case v of None \<Rightarrow> d | Some b \<Rightarrow> if b then b else d)"

text \<open>
  Numbers as the queue uses them: \<open>x - y\<close>, \<open>x !== y\<close>, \<open>x > y\<close>, \<open>0 < x\<close>,
  \<open>x || d\<close> and \<open>getTime()\<close> of a \<open>Date\<close>. \<open>NaN\<close> differs from every number,
  itself included, and is greater than none; a difference with \<open>NaN\<close> in it, and that
  of two equal infinities, is \<open>NaN\<close>; \<open>NaN\<close> and \<open>0\<close> are falsy.
\<close>

instantiation number :: minus
begin

fun minus_number :: "number \<Rightarrow> number \<Rightarrow> number" where
  "minus_number (Finite x) (Finite y) = Finite (x - y)"
| "minus_number NaN y = NaN"
| "minus_number x NaN = NaN"
| "minus_number PosInfinity PosInfinity = NaN"
| "minus_number NegInfinity NegInfinity = NaN"
| "minus_number PosInfinity y = PosInfinity"
| "minus_number NegInfinity y = NegInfinity"
| "minus_number (Finite x) PosInfinity = NegInfinity"
| "minus_number (Finite x) NegInfinity = PosInfinity"

instance ..

end

definition strict_neq :: "number \<Rightarrow> number \<Rightarrow> bool" where
  "strict_neq x y \<longleftrightarrow> x = NaN \<or> y = NaN \<or> x \<noteq> y"

fun greater_than :: "number \<Rightarrow> number \<Rightarrow> bool" where
  "greater_than NaN y = False"
| "greater_than x NaN = False"
| "greater_than (Finite x) (Finite y) = (y < x)"
| "greater_than x PosInfinity = False"
| "greater_than PosInfinity y = True"
| "greater_than NegInfinity y = False"
| "greater_than (Finite x) NegInfinity = True"

definition positive :: "number \<Rightarrow> bool" where
  "positive v = greater_than v (Finite 0)"

definition number_or :: "number \<Rightarrow> number \<Rightarrow> number" where
  "number_or v d = (if v = NaN \<or> v = Finite 0 then d else v)"

definition getTime :: "date \<Rightarrow> number" where
  "getTime d = (case d of Date_at t \<Rightarrow> Finite (of_int t) | Invalid_Date \<Rightarrow> NaN)"

text \<open>
  \<open>Array.prototype.sort(compare)\<close>. The sort reads a result \<open>NaN\<close> of the comparator
  as \<open>+0\<close> (\<open>SortCompare\<close>) and is stable (ECMAScript 2019). For a comparator that is
  a consistent ordering every stable sort returns the same array: that of the insertion
  sort below, which takes the elements from the last to the first and puts each before
  the first element of the sorted rest that it does not exceed. A comparator that
  returns \<open>NaN\<close> is not consistent, and the language then leaves the order to the run
  time. The run time of this repository (V8, under Node) first looks for the longest
  run from the start in which no element compares below the one before it, and moves
  nothing when that run is the whole array. The comparators of the queue change sign,
  and keep \<open>NaN\<close>, when their arguments are swapped, so for them the insertion sort
  below moves nothing on such an array either (\<open>js_sort_run\<close>).
\<close>

definition SortCompare :: "('a \<Rightarrow> 'a \<Rightarrow> number) \<Rightarrow> 'a \<Rightarrow> 'a \<Rightarrow> number" where
  "SortCompare compare x y = (case compare x y of NaN \<Rightarrow> Finite 0 | v \<Rightarrow> v)"

fun insert_sorted :: "('a \<Rightarrow> 'a \<Rightarrow> number) \<Rightarrow> 'a \<Rightarrow> 'a list \<Rightarrow> 'a list" where
  "insert_sorted compare x [] = [x]"
| "insert_sorted compare x (y # ys) =
     (if positive (SortCompare compare x y) then y # insert_sorted compare x ys
      else x # y # ys)"

definition js_sort :: "('a \<Rightarrow> 'a \<Rightarrow> number) \<Rightarrow> 'a list \<Rightarrow> 'a list" where
  "js_sort compare xs = foldr (insert_sorted compare) xs []"

text \<open>\<open>xs.slice(0, limit)\<close>; a negative limit counts from the end of the array.\<close>

definition slice0 :: "'a list \<Rightarrow> int \<Rightarrow> 'a list" where
  "slice0 xs limit =
     (if 0 \<le> limit then take (nat limit) xs else take (length xs - nat (- limit)) xs)"

section \<open>Queue (src/queue/Queue.ts)\<close>

text \<open>
  The constructor, \<open>constructor(options: QueueOptions = {})\<close>: a missing argument is the
  empty options object.
\<close>

definition Queue :: "queue_options option \<Rightarrow> 'a queue" where
  "Queue opts =
     (let options = (case opts of
            None \<Rightarrow> \<lparr>opt_maxSize = None, opt_retryLimit = None, opt_priorityEnabled = None\<rparr>
          | Some given \<Rightarrow> given)
      in \<lparr>items = [],
          processing = [],
          options = \<lparr>maxSize = or_number (opt_maxSize options) 1000,
                       retryLimit = or_number (opt_retryLimit options) 3,
                       priorityEnabled = or_boolean (opt_priorityEnabled options) False\<rparr>,
          processors = [],
          storageAdapter = None\<rparr>)"

definition setStorageAdapter :: "string \<Rightarrow> 'a queue \<Rightarrow> 'a queue" where
  "setStorageAdapter adapter q = q\<lparr>storageAdapter := Some adapter\<rparr>"

text \<open>
  \<open>enqueue(data, priority = 0)\<close>. The identifier \<open>uuidv4()\<close> generates and the time
  value of the \<open>Date\<close> that \<open>new Date()\<close> builds from the clock are inputs of the
  model; a priority left out is \<open>0\<close>, any number given is stored as it is. The closing
  \<open>this.autoSave()\<close> is not awaited and writes only the snapshot file (see \<open>autoSave\<close>
  below), so the queue the call leaves behind is the one returned here; the same holds
  for \<open>complete\<close>, \<open>retry\<close> and \<open>clear\<close>.
\<close>

definition enqueue ::
  "string \<Rightarrow> int \<Rightarrow> 'a \<Rightarrow> number option \<Rightarrow> 'a queue \<Rightarrow> error + (string \<times> 'a queue)" where
  "enqueue uuid now d prio q =
     (if int (length (items q)) \<ge> maxSize (options q) then Inl QueueFull
      else
        let p = (case prio of None \<Rightarrow> Finite 0 | Some n \<Rightarrow> n);
            item = \<lparr>item_id = uuid, data = d, addedAt = Date_at now,
                    priority = (if priorityEnabled (options q) then p else Finite 0),
                    processingAttempts = 0\<rparr>
        in Inr (uuid, q\<lparr>items := map_set uuid item (items q)\<rparr>))"

text \<open>
  The two comparators \<open>dequeue\<close> and \<open>peek\<close> sort with. The first returns \<open>NaN\<close>
  when one of the two priorities is \<open>NaN\<close>, each returns \<open>NaN\<close> when it comes to an
  \<open>Invalid Date\<close>.
\<close>

definition higher_priority_then_older :: "'a queue_item \<Rightarrow> 'a queue_item \<Rightarrow> number" where
  "higher_priority_then_older a b =
     (if strict_neq (priority b) (priority a) then priority b - priority a
      else getTime (addedAt a) - getTime (addedAt b))"

definition older_first :: "'a queue_item \<Rightarrow> 'a queue_item \<Rightarrow> number" where
  "older_first a b = getTime (addedAt a) - getTime (addedAt b)"

definition availableItems :: "'a queue \<Rightarrow> 'a queue_item list" where
  "availableItems q =
     filter (\<lambda>item. \<not> set_has (processing q) (item_id item)) (map_values (items q))"

text \<open>
  \<open>dequeue()\<close> returns the item or \<open>null\<close>. The head of the sorted array is read only
  after the array was found non-empty.
\<close>

definition dequeue :: "'a queue \<Rightarrow> 'a queue_item option \<times> 'a queue" where
  "dequeue q =
     (if length (items q) = 0 then (None, q)
      else if length (availableItems q) = 0 then (None, q)
      else
        let nextItem =
              (if priorityEnabled (options q)
               then hd (js_sort higher_priority_then_older (availableItems q))
               else hd (js_sort older_first (availableItems q)))
        in (Some nextItem, q\<lparr>processing := set_add (item_id nextItem) (processing q)\<rparr>))"

definition complete :: "string \<Rightarrow> 'a queue \<Rightarrow> bool \<times> 'a queue" where
  "complete i q =
     (if \<not> set_has (processing q) i then (False, q)
      else (True, q\<lparr>processing := set_delete i (processing q),
                     items := map_delete i (items q)\<rparr>))"

text \<open>
  \<open>retry(id)\<close>. The item is an object shared with the map, so the assignment to its
  \<open>processingAttempts\<close> is a \<open>map_set\<close> under its key.
\<close>

definition retry :: "string \<Rightarrow> 'a queue \<Rightarrow> bool \<times> 'a queue" where
  "retry i q =
     (if \<not> set_has (processing q) i then (False, q)
      else case map_get (items q) i of
        None \<Rightarrow> (False, q)
      | Some item \<Rightarrow>
          if processingAttempts item \<ge> retryLimit (options q)
          then (False, q\<lparr>processing := set_delete i (processing q),
                          items := map_delete i (items q)\<rparr>)
          else (True, q\<lparr>items := map_set i
                            (item\<lparr>processingAttempts :=
                               or_number (Some (processingAttempts item)) 0 + 1\<rparr>) (items q),
                         processing := set_delete i (processing q)\<rparr>))"

definition registerProcessor ::
  "('a queue_item \<Rightarrow> processor_result) \<Rightarrow> 'a queue \<Rightarrow> 'a queue" where
  "registerProcessor processor q = q\<lparr>processors := processors q @ [processor]\<rparr>"

definition size_queue :: "'a queue \<Rightarrow> int" where
  "size_queue q = int (length (items q))"

definition clear :: "'a queue \<Rightarrow> 'a queue" where
  "clear q = q\<lparr>items := [], processing := []\<rparr>"

definition peek :: "'a queue \<Rightarrow> 'a queue_item option" where
  "peek q =
     (if length (items q) = 0 then None
      else if length (availableItems q) = 0 then None
      else if priorityEnabled (options q)
      then Some (hd (js_sort higher_priority_then_older (availableItems q)))
      else Some (hd (js_sort older_first (availableItems q))))"

text \<open>
  The comparator of \<open>browse\<close>: items not in flight first, then by priority when
  enabled, then the oldest first.
\<close>

definition browse_order :: "'a queue \<Rightarrow> 'a queue_item \<Rightarrow> 'a queue_item \<Rightarrow> number" where
  "browse_order q a b =
     (let aProcessing = (if set_has (processing q) (item_id a) then Finite 1 else Finite 0);
          bProcessing = (if set_has (processing q) (item_id b) then Finite 1 else Finite 0)
      in if strict_neq aProcessing bProcessing then aProcessing - bProcessing
         else if priorityEnabled (options q) \<and> strict_neq (priority a) (priority b)
         then number_or (priority b) (Finite 0) - number_or (priority a) (Finite 0)
         else getTime (addedAt a) - getTime (addedAt b))"

text \<open>\<open>browse(limit = 10)\<close>.\<close>

definition browse :: "int option \<Rightarrow> 'a queue \<Rightarrow> 'a queue_item list" where
  "browse limit q =
     slice0 (js_sort (browse_order q) (map_values (items q)))
       (case limit of None \<Rightarrow> 10 | Some n \<Rightarrow> n)"

text \<open>
  \<open>dequeueMany(count)\<close>: the loop \<open>for (i = 0; i < count; i++)\<close> runs \<open>count\<close>
  times for a non-negative integer and not at all for a negative one, and stops at the
  first \<open>null\<close>.
\<close>

fun dequeueMany_loop ::
  "nat \<Rightarrow> 'a queue_item list \<Rightarrow> 'a queue \<Rightarrow> 'a queue_item list \<times> 'a queue" where
  "dequeueMany_loop 0 results q = (results, q)"
| "dequeueMany_loop (Suc n) results q =
     (case dequeue q of
        (None, q') \<Rightarrow> (results, q')
      | (Some item, q') \<Rightarrow> dequeueMany_loop n (results @ [item]) q')"

definition dequeueMany :: "int \<Rightarrow> 'a queue \<Rightarrow> 'a queue_item list \<times> 'a queue" where
  "dequeueMany count q = dequeueMany_loop (nat count) [] q"

record batch_result =
  succeeded :: int
  failed :: int

fun completeMany_loop ::
  "string list \<Rightarrow> batch_result \<Rightarrow> 'a queue \<Rightarrow> batch_result \<times> 'a queue" where
  "completeMany_loop [] counts q = (counts, q)"
| "completeMany_loop (i # ids) counts q =
     (case complete i q of
        (True, q') \<Rightarrow> completeMany_loop ids (counts\<lparr>succeeded := succeeded counts + 1\<rparr>) q'
      | (False, q') \<Rightarrow> completeMany_loop ids (counts\<lparr>failed := failed counts + 1\<rparr>) q')"

definition completeMany :: "string list \<Rightarrow> 'a queue \<Rightarrow> batch_result \<times> 'a queue" where
  "completeMany ids q = completeMany_loop ids \<lparr>succeeded = 0, failed = 0\<rparr> q"

fun retryMany_loop ::
  "string list \<Rightarrow> batch_result \<Rightarrow> 'a queue \<Rightarrow> batch_result \<times> 'a queue" where
  "retryMany_loop [] counts q = (counts, q)"
| "retryMany_loop (i # ids) counts q =
     (case retry i q of
        (True, q') \<Rightarrow> retryMany_loop ids (counts\<lparr>succeeded := succeeded counts + 1\<rparr>) q'
      | (False, q') \<Rightarrow> retryMany_loop ids (counts\<lparr>failed := failed counts + 1\<rparr>) q')"

definition retryMany :: "string list \<Rightarrow> 'a queue \<Rightarrow> batch_result \<times> 'a queue" where
  "retryMany ids q = retryMany_loop ids \<lparr>succeeded = 0, failed = 0\<rparr> q"

text \<open>
  The processor loop of \<open>processNext\<close>, inside its \<open>try\<close> block. It leaves in one of
  three ways: by the \<open>return true\<close> after a processor succeeded, by falling out of the
  \<open>for\<close> after every processor returned \<open>false\<close>, or by an exception of an awaited
  processor. The number counts the processors that were called.
\<close>

datatype loop_exit = Succeeded | FellThrough | Threw

fun run_processors ::
  "('a queue_item \<Rightarrow> processor_result) list \<Rightarrow> 'a queue_item \<Rightarrow> nat \<Rightarrow> loop_exit \<times> nat" where
  "run_processors [] item calls = (FellThrough, calls)"
| "run_processors (processor # rest) item calls =
     (case processor item of
        Rejects \<Rightarrow> (Threw, calls + 1)
      | Resolves success \<Rightarrow>
          if success then (Succeeded, calls + 1) else run_processors rest item (calls + 1))"

text \<open>
  \<open>processNext()\<close>: the boolean it resolves to, the number of processor calls it made
  and the queue it leaves.
\<close>

definition processNext :: "'a queue \<Rightarrow> bool \<times> nat \<times> 'a queue" where
  "processNext q =
     (case dequeue q of
        (None, q') \<Rightarrow> (False, 0, q')
      | (Some item, q') \<Rightarrow>
          (case run_processors (processors q') item 0 of
             (Succeeded, calls) \<Rightarrow> (True, calls, snd (complete (item_id item) q'))
           | (FellThrough, calls) \<Rightarrow> (False, calls, snd (retry (item_id item) q'))
           | (Threw, calls) \<Rightarrow> (False, calls, snd (retry (item_id item) q'))))"

section \<open>Snapshot files (src/queue/storage.ts)\<close>

text \<open>
  A JSON document as a tree. A number in it is finite: \<open>JSON.stringify\<close> prints no
  other, and a numeral too large for a double, which \<open>JSON.parse\<close> would read as an
  infinity, is not modelled. The properties of an object are kept in the order they were
  written.
\<close>

datatype json =
    JNull
  | JBool bool
  | JNumber real
  | JString string
  | JArray "json list"
  | JObject "(string \<times> json) list"

text \<open>
  The text of a file is either what \<open>JSON.stringify\<close> printed for a tree, which
  \<open>JSON.parse\<close> reads back as that tree, or some other text, on which \<open>JSON.parse\<close>
  throws a \<open>SyntaxError\<close>. The disk maps a path to the text of the file there, and says
  for which paths \<open>fs.writeFile\<close> and \<open>fs.readFile\<close> report an error.
\<close>

datatype file_text = Printed json | Unparsable

record file_system =
  files :: "string \<Rightarrow> file_text option"
  unwritable :: "string \<Rightarrow> bool"
  unreadable :: "string \<Rightarrow> bool"

text \<open>
  How a promise settles.
\<close>

datatype 'r promise = Fulfilled 'r | Rejected error

text \<open>
  \<open>Date.prototype.toISOString\<close> on the time value of a valid \<open>Date\<close>: the proleptic
  Gregorian date and the UTC time of day, as \<open>YYYY-MM-DDTHH:mm:ss.sssZ\<close>, with a
  signed year of six digits outside 0000 to 9999. The day number within its era of 400
  years (146097 days, counted from 1 March) is split into the century, the cycle of four
  years and the year, which gives the year of the era and the day of the year;
  \<open>civil_to_days\<close> is the day number of a date, also of one whose day of the month
  runs past the end of the month.
\<close>

definition century_of :: "int \<Rightarrow> int" where
  "century_of doe = min 3 (doe div 36524)"

definition day_of_century :: "int \<Rightarrow> int" where
  "day_of_century doe = doe - 36524 * century_of doe"

definition cycle_of :: "int \<Rightarrow> int" where
  "cycle_of doe = min 24 (day_of_century doe div 1461)"

definition day_of_cycle :: "int \<Rightarrow> int" where
  "day_of_cycle doe = day_of_century doe - 1461 * cycle_of doe"

definition year_of_cycle :: "int \<Rightarrow> int" where
  "year_of_cycle doe = min 3 (day_of_cycle doe div 365)"

definition day_of_year :: "int \<Rightarrow> int" where
  "day_of_year doe = day_of_cycle doe - 365 * year_of_cycle doe"

definition year_of_era :: "int \<Rightarrow> int" where
  "year_of_era doe = 100 * century_of doe + 4 * cycle_of doe + year_of_cycle doe"

definition month_index :: "int \<Rightarrow> int" where
  "month_index doy = (5 * doy + 2) div 153"

definition days_to_civil :: "int \<Rightarrow> int \<times> int \<times> int" where
  "days_to_civil days =
     (let z = days + 719468;
          era = z div 146097;
          doe = z mod 146097;
          doy = day_of_year doe;
          mp = month_index doy;
          d = doy - (153 * mp + 2) div 5 + 1;
          m = (if mp < 10 then mp + 3 else mp - 9);
          y = year_of_era doe + era * 400 + (if m \<le> 2 then 1 else 0)
      in (y, m, d))"

definition civil_to_days :: "int \<Rightarrow> int \<Rightarrow> int \<Rightarrow> int" where
  "civil_to_days year m d =
     (let y = (if m \<le> 2 then year - 1 else year);
          era = y div 400;
          yoe = y mod 400;
          doy = (153 * (if m > 2 then m - 3 else m + 9) + 2) div 5 + d - 1;
          doe = yoe * 365 + yoe div 4 - yoe div 100 + doy
      in era * 146097 + doe - 719468)"

definition digit_char :: "int \<Rightarrow> char" where
  "digit_char n = ''0123456789'' ! nat n"

fun pad :: "nat \<Rightarrow> int \<Rightarrow> string" where
  "pad 0 n = []"
| "pad (Suc w) n = pad w (n div 10) @ [digit_char (n mod 10)]"

definition iso_time :: "int \<Rightarrow> int \<Rightarrow> int \<Rightarrow> string" where
  "iso_time m d ms =
     ''-'' @ pad 2 m @ ''-'' @ pad 2 d @ ''T''
     @ pad 2 (ms div 3600000) @ '':'' @ pad 2 (ms div 60000 mod 60) @ '':''
     @ pad 2 (ms div 1000 mod 60) @ ''.'' @ pad 3 (ms mod 1000) @ ''Z''"

definition toISOString :: "int \<Rightarrow> string" where
  "toISOString t =
     (let (y, m, d) = days_to_civil (t div 86400000);
          year = (if 0 \<le> y \<and> y \<le> 9999 then pad 4 y
                  else (if y < 0 then ''-'' else ''+'') @ pad 6 \<bar>y\<bar>)
      in year @ iso_time m d (t mod 86400000))"

text \<open>
  \<open>TimeClip\<close>, which \<open>new Date(number)\<close> applies: a time value out of the range of
  a \<open>Date\<close> gives an \<open>Invalid Date\<close>, a fraction is cut off towards zero.
  \<open>Date.prototype.toJSON\<close>, which \<open>JSON.stringify\<close> calls on a \<open>Date\<close>, gives
  \<open>null\<close> for an \<open>Invalid Date\<close> and the ISO string otherwise.
\<close>

definition TimeClip :: "real \<Rightarrow> date" where
  "TimeClip t =
     (if \<bar>t\<bar> > 8640000000000000 then Invalid_Date
      else Date_at (if 0 \<le> t then \<lfloor>t\<rfloor> else \<lceil>t\<rceil>))"

definition toJSON :: "date \<Rightarrow> json" where
  "toJSON d = (case d of Date_at t \<Rightarrow> JString (toISOString t) | Invalid_Date \<Rightarrow> JNull)"

text \<open>
  \<open>Date.parse\<close> followed by \<open>TimeClip\<close>, as \<open>new Date(string)\<close> applies them, on
  the two formats that \<open>toISOString\<close> prints: \<open>YYYY-MM-DDTHH:mm:ss.sssZ\<close> and the same
  with a signed year of six digits. A string in one of them gives an \<open>Invalid Date\<close>
  when a field is out of bounds, the year is \<open>-000000\<close> or the time is out of the
  range of a \<open>Date\<close>; the run time accepts a day up to 31 in every month, and the hour
  24 when the minutes, seconds and milliseconds are zero. \<open>None\<close> stands for a string
  in no such format: the other formats the run time reads are not modelled, and no
  snapshot the queue wrote contains them.
\<close>

definition digit_value :: "char \<Rightarrow> int option" where
  "digit_value c =
     map_of [(CHR ''0'', 0), (CHR ''1'', 1), (CHR ''2'', 2), (CHR ''3'', 3), (CHR ''4'', 4),
             (CHR ''5'', 5), (CHR ''6'', 6), (CHR ''7'', 7), (CHR ''8'', 8), (CHR ''9'', 9)] c"

fun number_of_digits :: "string \<Rightarrow> int \<Rightarrow> int option" where
  "number_of_digits [] n = Some n"
| "number_of_digits (c # cs) n =
     (case digit_value c of None \<Rightarrow> None | Some d \<Rightarrow> number_of_digits cs (10 * n + d))"

definition time_fields :: "string \<Rightarrow> (int \<times> int \<times> int \<times> int \<times> int \<times> int) option" where
  "time_fields rest =
     (if length rest = 20 \<and> rest ! 0 = CHR ''-'' \<and> rest ! 3 = CHR ''-'' \<and> rest ! 6 = CHR ''T''
         \<and> rest ! 9 = CHR '':'' \<and> rest ! 12 = CHR '':'' \<and> rest ! 15 = CHR ''.''
         \<and> rest ! 19 = CHR ''Z''
      then
        (case (number_of_digits (take 2 (drop 1 rest)) 0,
               number_of_digits (take 2 (drop 4 rest)) 0,
               number_of_digits (take 2 (drop 7 rest)) 0,
               number_of_digits (take 2 (drop 10 rest)) 0,
               number_of_digits (take 2 (drop 13 rest)) 0,
               number_of_digits (take 3 (drop 16 rest)) 0) of
           (Some m, Some d, Some hh, Some mm, Some ss, Some ms) \<Rightarrow>
             Some (m, d, hh, mm, ss, ms)
         | _ \<Rightarrow> None)
      else None)"

definition date_of_fields :: "int \<Rightarrow> int \<times> int \<times> int \<times> int \<times> int \<times> int \<Rightarrow> date" where
  "date_of_fields y parts =
     (case parts of (m, d, hh, mm, ss, ms) \<Rightarrow>
        if 1 \<le> m \<and> m \<le> 12 \<and> 1 \<le> d \<and> d \<le> 31
           \<and> (hh \<le> 23 \<and> mm \<le> 59 \<and> ss \<le> 59 \<or> hh = 24 \<and> mm = 0 \<and> ss = 0 \<and> ms = 0)
        then TimeClip (of_int (civil_to_days y m d * 86400000 + hh * 3600000 + mm * 60000
                               + ss * 1000 + ms))
        else Invalid_Date)"

definition Date_parse :: "string \<Rightarrow> date option" where
  "Date_parse s =
     (if length s = 24
      then (case (number_of_digits (take 4 s) 0, time_fields (drop 4 s)) of
              (Some y, Some parts) \<Rightarrow> Some (date_of_fields y parts)
            | _ \<Rightarrow> None)
      else if length s = 27 \<and> hd s = CHR ''+''
      then (case (number_of_digits (take 6 (drop 1 s)) 0, time_fields (drop 7 s)) of
              (Some y, Some parts) \<Rightarrow> Some (date_of_fields y parts)
            | _ \<Rightarrow> None)
      else if length s = 27 \<and> hd s = CHR ''-''
      then (case (number_of_digits (take 6 (drop 1 s)) 0, time_fields (drop 7 s)) of
              (Some y, Some parts) \<Rightarrow>
                Some (if y = 0 then Invalid_Date else date_of_fields (- y) parts)
            | _ \<Rightarrow> None)
      else None)"

text \<open>
  The value of a property of a parsed object: the last one of that name.
\<close>

definition json_get :: "(string \<times> json) list \<Rightarrow> string \<Rightarrow> json option" where
  "json_get props k = map_of (rev props) k"

text \<open>
  What \<open>JSON.stringify\<close> prints for a number, \<open>null\<close> unless it is finite, and for
  a \<open>QueueItem<T>\<close>, property by property in the order \<open>enqueue\<close> wrote them. The
  payload has the type parameter \<open>T\<close>, so what \<open>JSON.stringify\<close> makes of it is a
  parameter, \<open>payload_to_json\<close>: \<open>None\<close> when the property is left out, as for
  \<open>undefined\<close>.
\<close>

definition number_to_json :: "number \<Rightarrow> json" where
  "number_to_json n = (case n of Finite r \<Rightarrow> JNumber r | _ \<Rightarrow> JNull)"

definition item_to_json :: "('a \<Rightarrow> json option) \<Rightarrow> 'a queue_item \<Rightarrow> json" where
  "item_to_json payload_to_json item =
     JObject ([(''id'', JString (item_id item))]
              @ (case payload_to_json (data item) of None \<Rightarrow> [] | Some j \<Rightarrow> [(''data'', j)])
              @ [(''addedAt'', toJSON (addedAt item)),
                 (''priority'', number_to_json (priority item)),
                 (''processingAttempts'', JNumber (of_int (processingAttempts item)))])"

text \<open>
  \<open>FileStorageAdapter.save\<close>: the whole snapshot replaces the file, or the promise
  rejects with the error of \<open>fs.writeFile\<close>.
\<close>

definition save ::
  "('a \<Rightarrow> json option) \<Rightarrow> string \<Rightarrow> (string \<times> 'a queue_item) list \<Rightarrow> string list
   \<Rightarrow> file_system \<Rightarrow> unit promise \<times> file_system" where
  "save payload_to_json filePath its inflight fs =
     (let snapshot =
            JObject [(''items'',
                      JArray (map (\<lambda>e. JArray [JString (fst e),
                                                 item_to_json payload_to_json (snd e)]) its)),
                     (''processing'', JArray (map JString inflight))]
      in if unwritable fs filePath then (Rejected WriteFailed, fs)
         else (Fulfilled (), fs\<lparr>files := (files fs)(filePath \<mapsto> Printed snapshot)\<rparr>))"

text \<open>
  \<open>new Date(value.addedAt)\<close> on the parsed value: a property that is missing gives an
  \<open>Invalid Date\<close>, \<open>null\<close> and a boolean are converted to a number, a number is
  clipped and a string is parsed. \<open>None\<close> is a \<open>Date\<close> the model does not work out:
  that of a string in a format \<open>Date_parse\<close> does not cover, and that of an array or an
  object, which is converted to a string first.
\<close>

definition new_Date :: "json option \<Rightarrow> date option" where
  "new_Date v =
     (case v of
        None \<Rightarrow> Some Invalid_Date
      | Some JNull \<Rightarrow> Some (Date_at 0)
      | Some (JBool b) \<Rightarrow> Some (Date_at (if b then 1 else 0))
      | Some (JNumber n) \<Rightarrow> Some (TimeClip n)
      | Some (JString s) \<Rightarrow> Date_parse s
      | Some (JArray xs) \<Rightarrow> None
      | Some (JObject props) \<Rightarrow> None)"

text \<open>
  The object \<open>{ ...value, addedAt: new Date(value.addedAt) }\<close> that the loader builds
  from a parsed object, read at the type of an item: \<open>payload_of_json\<close> is the parsed
  payload read at the type \<open>T\<close>. The loader does not check what it builds. \<open>None\<close> is
  an object that is no item of the model: one without a string \<open>id\<close>, without a
  \<open>priority\<close> that is a number or without a \<open>processingAttempts\<close> that is an integer,
  or with a \<open>Date\<close> that \<open>new_Date\<close> does not work out. An item of the model keeps
  the five properties of a \<open>QueueItem<T>\<close>, not what else the object holds.
\<close>

definition item_of_json ::
  "(json option \<Rightarrow> 'a) \<Rightarrow> (string \<times> json) list \<Rightarrow> 'a queue_item option" where
  "item_of_json payload_of_json props =
     (case (json_get props ''id'', new_Date (json_get props ''addedAt''),
            json_get props ''priority'', json_get props ''processingAttempts'') of
        (Some (JString i), Some t, Some (JNumber p), Some (JNumber n)) \<Rightarrow>
          if n = of_int \<lfloor>n\<rfloor>
          then Some \<lparr>item_id = i, data = payload_of_json (json_get props ''data''),
                     addedAt = t, priority = Finite p, processingAttempts = \<lfloor>n\<rfloor>\<rparr>
          else None
      | _ \<Rightarrow> None)"

text \<open>
  The callback \<open>([key, value]) => [key, { ...value, addedAt: new Date(value.addedAt) }]\<close>
  on one element of \<open>parsed.items\<close>. The destructuring throws a \<open>TypeError\<close> on an
  element that cannot be iterated (it takes the first two elements of an array and the
  first two characters of a string), and \<open>value.addedAt\<close> throws one when \<open>value\<close> is
  \<open>undefined\<close> or \<open>null\<close>. Every other element gives an entry: \<open>None\<close> when the key
  is no string or the value no item of the model.
\<close>

definition entry_of_json ::
  "(json option \<Rightarrow> 'a) \<Rightarrow> json \<Rightarrow> error + (string \<times> 'a queue_item) option" where
  "entry_of_json payload_of_json e =
     (case e of
        JArray (k # v # rest) \<Rightarrow>
          (case v of
             JNull \<Rightarrow> Inl TypeError
           | JObject props \<Rightarrow>
               (case k of
                  JString key \<Rightarrow>
                    Inr (map_option (Pair key) (item_of_json payload_of_json props))
                | _ \<Rightarrow> Inr None)
           | _ \<Rightarrow> Inr None)
      | JArray short \<Rightarrow> Inl TypeError
      | JString s \<Rightarrow> if length s < 2 then Inl TypeError else Inr None
      | _ \<Rightarrow> Inl TypeError)"

text \<open>
  \<open>parsed.items.map(callback)\<close>: the first \<open>TypeError\<close> of the callback ends it;
  otherwise it gives the entries, \<open>None\<close> when one of them is none of the model.
\<close>

fun entries_of_json ::
  "(json option \<Rightarrow> 'a) \<Rightarrow> json list \<Rightarrow> error + (string \<times> 'a queue_item) list option" where
  "entries_of_json payload_of_json [] = Inr (Some [])"
| "entries_of_json payload_of_json (e # es) =
     (case entry_of_json payload_of_json e of
        Inl err \<Rightarrow> Inl err
      | Inr entry \<Rightarrow>
          (case entries_of_json payload_of_json es of
             Inl err \<Rightarrow> Inl err
           | Inr entries \<Rightarrow>
               Inr (case (entry, entries) of
                      (Some x, Some xs) \<Rightarrow> Some (x # xs)
                    | _ \<Rightarrow> None)))"

text \<open>
  \<open>new Map(entries)\<close> and \<open>new Set(values)\<close>: a later entry with the same key
  replaces the value, a repeated member is dropped.
\<close>

definition new_Map :: "(string \<times> 'v) list \<Rightarrow> (string \<times> 'v) list" where
  "new_Map entries = fold (\<lambda>e m. map_set (fst e) (snd e) m) entries []"

definition new_Set :: "string list \<Rightarrow> string list" where
  "new_Set xs = fold set_add xs []"

fun strings_of_json :: "json list \<Rightarrow> string list option" where
  "strings_of_json [] = Some []"
| "strings_of_json (JString s # js) = map_option ((#) s) (strings_of_json js)"
| "strings_of_json (j # js) = None"

text \<open>
  \<open>new Set(parsed.processing)\<close>: empty for \<open>undefined\<close> and \<open>null\<close>, the elements
  of an array, the characters of a string, and a \<open>TypeError\<close> for any other value.
  \<open>None\<close> is a set with a member that is no string.
\<close>

definition processing_of_json :: "json option \<Rightarrow> error + string list option" where
  "processing_of_json v =
     (case v of
        None \<Rightarrow> Inr (Some (new_Set []))
      | Some JNull \<Rightarrow> Inr (Some (new_Set []))
      | Some (JArray js) \<Rightarrow> Inr (map_option new_Set (strings_of_json js))
      | Some (JString s) \<Rightarrow> Inr (Some (new_Set (map (\<lambda>c. [c]) s)))
      | Some other \<Rightarrow> Inl TypeError)"

text \<open>
  \<open>FileStorageAdapter.load\<close>. The promise is fulfilled with empty collections when
  the file does not exist; it rejects with the error of \<open>fs.readFile\<close> or with the
  error thrown while parsing and converting; otherwise it is fulfilled with the
  collections built from the file. \<open>Fulfilled None\<close> says that the promise is
  fulfilled with collections that are no \<open>Map<string, QueueItem<T>>\<close> and
  \<open>Set<string>\<close> of the model, which the loader, checking nothing, hands on all the
  same.
\<close>

definition load ::
  "(json option \<Rightarrow> 'a) \<Rightarrow> string \<Rightarrow> file_system
   \<Rightarrow> ((string \<times> 'a queue_item) list \<times> string list) option promise" where
  "load payload_of_json filePath fs =
     (case files fs filePath of
        None \<Rightarrow> Fulfilled (Some (new_Map [], new_Set []))
      | Some text \<Rightarrow>
          if unreadable fs filePath then Rejected ReadFailed
          else
            (case text of
               Unparsable \<Rightarrow> Rejected SyntaxError
             | Printed parsed \<Rightarrow>
                 (case parsed of
                    JObject props \<Rightarrow>
                      (case json_get props ''items'' of
                         Some (JArray es) \<Rightarrow>
                           (case entries_of_json payload_of_json es of
                              Inl err \<Rightarrow> Rejected err
                            | Inr entries \<Rightarrow>
                                (case processing_of_json (json_get props ''processing'') of
                                   Inl err \<Rightarrow> Rejected err
                                 | Inr ids \<Rightarrow>
                                     Fulfilled (case (entries, ids) of
                                                  (Some es', Some ids') \<Rightarrow>
                                                    Some (new_Map es', ids')
                                                | _ \<Rightarrow> None)))
                       | _ \<Rightarrow> Rejected TypeError)
                  | _ \<Rightarrow> Rejected TypeError)))"

text \<open>
  A payload type to run the adapter on: JavaScript values, with what
  \<open>JSON.stringify\<close> prints for them (nothing for \<open>undefined\<close>, which becomes \<open>null\<close>
  inside an array and leaves its property out of an object; \<open>null\<close> for a number
  that is not finite; what \<open>toJSON\<close> gives for a \<open>Date\<close>) and what \<open>JSON.parse\<close>
  builds from a tree.
\<close>

datatype js_value =
    VUndefined
  | VNull
  | VBoolean bool
  | VNumber number
  | VString string
  | VDate date
  | VArray "js_value list"
  | VObject "(string \<times> js_value) list"

fun stringify_value :: "js_value \<Rightarrow> json option" where
  "stringify_value VUndefined = None"
| "stringify_value VNull = Some JNull"
| "stringify_value (VBoolean b) = Some (JBool b)"
| "stringify_value (VNumber n) = Some (number_to_json n)"
| "stringify_value (VString s) = Some (JString s)"
| "stringify_value (VDate d) = Some (toJSON d)"
| "stringify_value (VArray vs) =
     Some (JArray (map (\<lambda>v. case stringify_value v of None \<Rightarrow> JNull | Some j \<Rightarrow> j) vs))"
| "stringify_value (VObject kvs) =
     Some (JObject (concat (map (\<lambda>kv. case stringify_value (snd kv) of
                                         None \<Rightarrow> []
                                       | Some j \<Rightarrow> [(fst kv, j)]) kvs)))"

fun value_of_json :: "json \<Rightarrow> js_value" where
  "value_of_json JNull = VNull"
| "value_of_json (JBool b) = VBoolean b"
| "value_of_json (JNumber n) = VNumber (Finite n)"
| "value_of_json (JString s) = VString s"
| "value_of_json (JArray js) = VArray (map value_of_json js)"
| "value_of_json (JObject props) = VObject (map (\<lambda>kv. (fst kv, value_of_json (snd kv))) props)"

definition parsed_value :: "json option \<Rightarrow> js_value" where
  "parsed_value v = (case v of None \<Rightarrow> VUndefined | Some j \<Rightarrow> value_of_json j)"

section \<open>Persistence of a queue, and the QueueManager (src/queue/QueueManager.ts)\<close>

text \<open>
  \<open>loadFromStorage\<close>, \<open>saveToStorage\<close> and \<open>autoSave\<close> of \<open>Queue\<close>. All three are
  \<open>async\<close>: the \<open>throw\<close> in them rejects the promise they return. \<open>loadFromStorage\<close>
  assigns what the adapter loaded to the queue; \<open>Fulfilled None\<close> says that the queue
  then holds collections that are none of the model.
\<close>

definition loadFromStorage ::
  "(json option \<Rightarrow> 'a) \<Rightarrow> 'a queue \<Rightarrow> file_system \<Rightarrow> 'a queue option promise" where
  "loadFromStorage payload_of_json q fs =
     (case storageAdapter q of
        None \<Rightarrow> Rejected NoStorageAdapter
      | Some filePath \<Rightarrow>
          (case load payload_of_json filePath fs of
             Rejected err \<Rightarrow> Rejected err
           | Fulfilled loaded \<Rightarrow>
               Fulfilled (map_option
                 (\<lambda>collections. q\<lparr>items := fst collections, processing := snd collections\<rparr>)
                 loaded)))"

definition saveToStorage ::
  "('a \<Rightarrow> json option) \<Rightarrow> 'a queue \<Rightarrow> file_system \<Rightarrow> unit promise \<times> file_system" where
  "saveToStorage payload_to_json q fs =
     (case storageAdapter q of
        None \<Rightarrow> (Rejected NoStorageAdapter, fs)
      | Some filePath \<Rightarrow> save payload_to_json filePath (items q) (processing q) fs)"

definition autoSave ::
  "('a \<Rightarrow> json option) \<Rightarrow> 'a queue \<Rightarrow> file_system \<Rightarrow> unit promise \<times> file_system" where
  "autoSave payload_to_json q fs =
     (case storageAdapter q of
        None \<Rightarrow> (Fulfilled (), fs)
      | Some filePath \<Rightarrow> saveToStorage payload_to_json q fs)"

text \<open>
  A call either returns or throws to the \<open>catch\<close> around it. A call of an \<open>async\<close>
  function always returns: its promise, with the effects of the part that ran.
\<close>

datatype 'r call = Returned 'r | Threw_error error

definition call_async :: "'r \<Rightarrow> 'r call" where
  "call_async promise_and_effects = Returned promise_and_effects"

record 'a queue_manager =
  queues :: "(string \<times> 'a queue) list"
  storageDir :: "string option"

definition QueueManager :: "string option \<Rightarrow> 'a queue_manager" where
  "QueueManager dir = \<lparr>queues = [], storageDir = dir\<rparr>"

text \<open>
  \<open>createQueue\<close>. The snapshot path is \<open>path.join(storageDir, name + '.json')\<close>, and
  an empty \<open>storageDir\<close> is falsy. The call \<open>queue.loadFromStorage()\<close> it makes with a
  storage directory is not awaited and a rejection of it is swallowed: \<open>createQueue\<close>
  returns the queue as it was built, and the load, when it settles later, leaves the
  queue that \<open>load_settled\<close> gives (\<open>None\<close> for collections that are none of the
  model). Directories are not modelled.
\<close>

definition createQueue ::
  "string \<Rightarrow> queue_options option \<Rightarrow> 'a queue_manager
   \<Rightarrow> error + ('a queue \<times> 'a queue_manager)" where
  "createQueue name opts mgr =
     (if map_get (queues mgr) name \<noteq> None then Inl (DuplicateQueue name)
      else
        let queue = Queue opts;
            queue' =
              (case storageDir mgr of
                 None \<Rightarrow> queue
               | Some dir \<Rightarrow>
                   if dir = [] then queue
                   else setStorageAdapter (dir @ ''/'' @ name @ ''.json'') queue)
        in Inr (queue', mgr\<lparr>queues := map_set name queue' (queues mgr)\<rparr>))"

definition load_settled ::
  "(json option \<Rightarrow> 'a) \<Rightarrow> 'a queue \<Rightarrow> file_system \<Rightarrow> 'a queue option" where
  "load_settled payload_of_json q fs =
     (case loadFromStorage payload_of_json q fs of
        Rejected err \<Rightarrow> Some q
      | Fulfilled loaded \<Rightarrow> loaded)"

text \<open>
  \<open>saveAllQueues\<close>: the loop with its \<open>try\<close> and \<open>catch\<close> around each call, then
  \<open>await Promise.all(promises)\<close>, which rejects as soon as one promise rejects, with
  the reason of that promise. The model has no clock for promises: \<open>Promise_all\<close>
  takes the first rejected promise in the order of the array, which is the one that
  rejects first whenever only one does. The disk returned is the one left when every
  write has settled.
\<close>

fun saveAllQueues_loop ::
  "('a \<Rightarrow> json option) \<Rightarrow> 'a queue list \<Rightarrow> unit promise list \<Rightarrow> file_system
   \<Rightarrow> unit promise list \<times> file_system" where
  "saveAllQueues_loop payload_to_json [] promises fs = (promises, fs)"
| "saveAllQueues_loop payload_to_json (queue # rest) promises fs =
     (case call_async (saveToStorage payload_to_json queue fs) of
        Threw_error err \<Rightarrow> saveAllQueues_loop payload_to_json rest promises fs
      | Returned (promise, fs') \<Rightarrow>
          saveAllQueues_loop payload_to_json rest (promises @ [promise]) fs')"

fun Promise_all :: "unit promise list \<Rightarrow> unit promise" where
  "Promise_all [] = Fulfilled ()"
| "Promise_all (Fulfilled u # promises) = Promise_all promises"
| "Promise_all (Rejected err # promises) = Rejected err"

definition saveAllQueues ::
  "('a \<Rightarrow> json option) \<Rightarrow> 'a queue_manager \<Rightarrow> file_system \<Rightarrow> unit promise \<times> file_system" where
  "saveAllQueues payload_to_json mgr fs =
     (case saveAllQueues_loop payload_to_json (map_values (queues mgr)) [] fs of
        (promises, fs') \<Rightarrow> (Promise_all promises, fs'))"

definition getQueue :: "string \<Rightarrow> 'a queue_manager \<Rightarrow> 'a queue option" where
  "getQueue name mgr = map_get (queues mgr) name"

definition removeQueue :: "string \<Rightarrow> 'a queue_manager \<Rightarrow> bool \<times> 'a queue_manager" where
  "removeQueue name mgr =
     (map_get (queues mgr) name \<noteq> None, mgr\<lparr>queues := map_delete name (queues mgr)\<rparr>)"

definition listQueues :: "'a queue_manager \<Rightarrow> string list" where
  "listQueues mgr = map fst (queues mgr)"

section \<open>Notifications (src/queue/types.ts, services/QueueNotificationService.ts)\<close>

datatype queue_event_type = BatchReady | QueueComplete | ItemAdded | ItemProcessed | QueueEmpty

record 'a event_data =
  ev_item :: "'a queue_item option"
  batchSize :: "int option"
  remainingItems :: "int option"
  itemsSinceLastNotification :: "int option"

record 'a queue_event =
  ev_type :: queue_event_type
  queueName :: string
  timestamp :: int
  ev_data :: "'a event_data option"

text \<open>
  A \<open>QueueSubscriber<T>\<close> is an object with one method \<open>onEvent\<close>; what the method
  does is an effect on the world outside the queue, of type \<open>'w\<close>.
\<close>

type_synonym ('a, 'w) queue_subscriber = "'a queue_event \<Rightarrow> 'w \<Rightarrow> 'w"

record 'a notification_options =
  eventTypes :: "queue_event_type list option"
  filterFn :: "('a queue_event \<Rightarrow> bool) option"

text \<open>
  The subscriber \<open>subscribeToQueue\<close> builds around the given one: it drops an event
  whose type is not in \<open>eventTypes\<close>, then one that \<open>filterFn\<close> rejects, and passes the
  others on.
\<close>

definition queueSubscriber ::
  "('a, 'w) queue_subscriber \<Rightarrow> 'a notification_options option \<Rightarrow> ('a, 'w) queue_subscriber" where
  "queueSubscriber subscriber opts event w =
     (if (case opts of
            None \<Rightarrow> False
          | Some given \<Rightarrow>
              (case eventTypes given of
                 None \<Rightarrow> False
               | Some allowed \<Rightarrow> ev_type event \<notin> set allowed))
      then w
      else if (case opts of
                 None \<Rightarrow> False
               | Some given \<Rightarrow>
                   (case filterFn given of None \<Rightarrow> False | Some accepts \<Rightarrow> \<not> accepts event))
      then w
      else subscriber event w)"

text \<open>
  Modelled from the spec: the \<open>Queue\<close> with subscribers. \<open>QueueNotificationService\<close>
  calls \<open>queue.subscribe\<close>, and the \<open>Queue.ts\<close> at hand has no such method and emits no
  event. By the spec (3, 4.1) a queue optionally fans out lifecycle events to the
  receivers registered on it, and an event carries the queue's name (4.3): the queue of
  \<open>Queue.ts\<close> with a name and its receivers in the order they were registered.
\<close>

record ('a, 'w) observed_queue =
  core :: "'a queue"
  name_of_queue :: string
  subscribers :: "('a, 'w) queue_subscriber list"

text \<open>
  Modelled from the spec: \<open>Queue.subscribe\<close>, missing from \<open>Queue.ts\<close>. "Registers a
  raw event receiver scoped to this queue" (4.1).
\<close>

definition subscribe ::
  "('a, 'w) queue_subscriber \<Rightarrow> ('a, 'w) observed_queue \<Rightarrow> ('a, 'w) observed_queue" where
  "subscribe subscriber oq = oq\<lparr>subscribers := subscribers oq @ [subscriber]\<rparr>"

text \<open>
  Modelled from the spec: the emission of an event, missing from \<open>Queue.ts\<close>. Every
  registered receiver gets the event, and "delivery is not deferred or batched" but
  "synchronous with emission" (4.3).
\<close>

definition emit :: "'a queue_event \<Rightarrow> ('a, 'w) observed_queue \<Rightarrow> 'w \<Rightarrow> 'w" where
  "emit event oq w = fold (\<lambda>subscriber. subscriber event) (subscribers oq) w"

text \<open>
  Modelled from the spec: the two events \<open>complete\<close> emits, missing from \<open>Queue.ts\<close>.
  An event is "{type, queueName, timestamp, data?}", and "\<open>itemAdded\<close>/\<open>itemProcessed\<close>
  carry the affected item" (4.3); the timestamp is an input of the model.
\<close>

definition itemProcessed_event ::
  "int \<Rightarrow> string \<Rightarrow> ('a, 'w) observed_queue \<Rightarrow> 'a queue_event" where
  "itemProcessed_event now i oq =
     \<lparr>ev_type = ItemProcessed, queueName = name_of_queue oq, timestamp = now,
      ev_data = Some \<lparr>ev_item = map_get (items (core oq)) i, batchSize = None,
                       remainingItems = None, itemsSinceLastNotification = None\<rparr>\<rparr>"

definition queueEmpty_event :: "int \<Rightarrow> ('a, 'w) observed_queue \<Rightarrow> 'a queue_event" where
  "queueEmpty_event now oq =
     \<lparr>ev_type = QueueEmpty, queueName = name_of_queue oq, timestamp = now, ev_data = None\<rparr>"

text \<open>
  Modelled from the spec: \<open>complete\<close> with its events, missing from \<open>Queue.ts\<close>.
  "Succeeds only if id is currently in-flight; removes it from both the in-flight set and
  the mapping, persists, emits \<open>itemProcessed\<close>, and emits \<open>queueEmpty\<close> if the mapping
  is now empty. Returns false (no-op) if id is not in-flight" (4.1). The removal is that
  of \<open>complete\<close> in \<open>Queue.ts\<close>.
\<close>

definition complete_observed ::
  "int \<Rightarrow> string \<Rightarrow> ('a, 'w) observed_queue \<Rightarrow> 'w \<Rightarrow> bool \<times> ('a, 'w) observed_queue \<times> 'w" where
  "complete_observed now i oq w =
     (case complete i (core oq) of
        (False, q') \<Rightarrow> (False, oq, w)
      | (True, q') \<Rightarrow>
          let oq' = oq\<lparr>core := q'\<rparr>;
              w1 = emit (itemProcessed_event now i oq) oq' w;
              w2 = (if length (items q') = 0 then emit (queueEmpty_event now oq) oq' w1 else w1)
          in (True, oq', w2))"

text \<open>
  \<open>QueueNotificationService\<close>: the queues of its manager and the subscriptions it
  tracks. \<open>subscribeToQueue\<close> fails on an unknown queue name; log lines are left out.
\<close>

record ('a, 'w) notification_service =
  queueManager :: "(string \<times> ('a, 'w) observed_queue) list"
  tracked :: "(string \<times> (('a, 'w) queue_subscriber \<times> 'a notification_options option) list) list"

definition subscribeToQueue ::
  "string \<Rightarrow> ('a, 'w) queue_subscriber \<Rightarrow> 'a notification_options option
   \<Rightarrow> ('a, 'w) notification_service \<Rightarrow> bool \<times> ('a, 'w) notification_service" where
  "subscribeToQueue name subscriber opts svc =
     (case map_get (queueManager svc) name of
        None \<Rightarrow> (False, svc)
      | Some queue \<Rightarrow>
          let wrapped = queueSubscriber subscriber opts;
              entries = (case map_get (tracked svc) name of None \<Rightarrow> [] | Some es \<Rightarrow> es)
          in (True,
              svc\<lparr>queueManager := map_set name (subscribe wrapped queue) (queueManager svc),
                  tracked := map_set name (entries @ [(wrapped, opts)]) (tracked svc)\<rparr>))"

section \<open>Representation invariant, scenarios and example states\<close>

text \<open>
  A \<open>Map\<close> holds a key once, and every entry the queue stores is filed under the
  identifier of its item.
\<close>

definition wf_queue :: "'a queue \<Rightarrow> bool" where
  "wf_queue q \<longleftrightarrow>
     distinct (map fst (items q)) \<and> (\<forall>e \<in> set (items q). item_id (snd e) = fst e)"

text \<open>
  The item \<open>dequeue\<close> and \<open>peek\<close> select when one is available: the head of the
  sorted array, in either branch.
\<close>

definition next_item :: "'a queue \<Rightarrow> 'a queue_item" where
  "next_item q =
     (if priorityEnabled (options q)
      then hd (js_sort higher_priority_then_older (availableItems q))
      else hd (js_sort older_first (availableItems q)))"

text \<open>
  A caller that runs \<open>dequeue()\<close> and then \<open>retry(i)\<close>, \<open>n\<close> times over, and
  notes which identifier each \<open>dequeue\<close> handed out and what each \<open>retry\<close> answered.
\<close>

fun dequeue_retry_rounds ::
  "nat \<Rightarrow> string \<Rightarrow> 'a queue \<Rightarrow> (string option \<times> bool) list \<times> 'a queue" where
  "dequeue_retry_rounds 0 i q = ([], q)"
| "dequeue_retry_rounds (Suc n) i q =
     (case dequeue q of (item, q') \<Rightarrow>
        case retry i q' of (ok, q'') \<Rightarrow>
          case dequeue_retry_rounds n i q'' of (answers, q''') \<Rightarrow>
            ((map_option item_id item, ok) # answers, q'''))"

text \<open>
  The public operations that change a queue, with their arguments, and a caller that
  runs a list of them. An \<open>enqueue\<close> that throws leaves the queue as it was.
\<close>

datatype 'a operation =
    Enqueue string int 'a "number option"
  | Dequeue
  | Peek
  | Complete string
  | Retry string
  | Clear
  | DequeueMany int
  | CompleteMany "string list"
  | RetryMany "string list"

fun apply_operation :: "'a operation \<Rightarrow> 'a queue \<Rightarrow> 'a queue" where
  "apply_operation (Enqueue uuid now d prio) q =
     (case enqueue uuid now d prio q of Inl err \<Rightarrow> q | Inr (i, q') \<Rightarrow> q')"
| "apply_operation Dequeue q = snd (dequeue q)"
| "apply_operation Peek q = (case peek q of None \<Rightarrow> q | Some item \<Rightarrow> q)"
| "apply_operation (Complete i) q = snd (complete i q)"
| "apply_operation (Retry i) q = snd (retry i q)"
| "apply_operation Clear q = clear q"
| "apply_operation (DequeueMany count) q = snd (dequeueMany count q)"
| "apply_operation (CompleteMany ids) q = snd (completeMany ids q)"
| "apply_operation (RetryMany ids) q = snd (retryMany ids q)"

definition run_operations :: "'a operation list \<Rightarrow> 'a queue \<Rightarrow> 'a queue" where
  "run_operations ops q = fold apply_operation ops q"

text \<open>
  Every entry is filed under its item's identifier and every identifier in flight is a
  key of the map.
\<close>

definition in_flight_known :: "'a queue \<Rightarrow> bool" where
  "in_flight_known q \<longleftrightarrow>
     (\<forall>e \<in> set (items q). item_id (snd e) = fst e)
     \<and> set (processing q) \<subseteq> fst ` set (items q)"

text \<open>
  A caller that makes a list of \<open>enqueue\<close> calls, stopping at the first that throws,
  and the item a call creates on a queue with priorities enabled.
\<close>

record 'a enqueue_call =
  call_uuid :: string
  call_now :: int
  call_data :: 'a
  call_priority :: "number option"

fun enqueue_calls :: "'a enqueue_call list \<Rightarrow> 'a queue \<Rightarrow> error + 'a queue" where
  "enqueue_calls [] q = Inr q"
| "enqueue_calls (c # cs) q =
     (case enqueue (call_uuid c) (call_now c) (call_data c) (call_priority c) q of
        Inl err \<Rightarrow> Inl err
      | Inr (i, q') \<Rightarrow> enqueue_calls cs q')"

definition prioritised_item :: "'a enqueue_call \<Rightarrow> 'a queue_item" where
  "prioritised_item c =
     \<lparr>item_id = call_uuid c, data = call_data c, addedAt = Date_at (call_now c),
      priority = (case call_priority c of None \<Rightarrow> Finite 0 | Some n \<Rightarrow> n),
      processingAttempts = 0\<rparr>"

text \<open>
  The order in which a queue with priorities hands out items whose priority is a number
  and whose \<open>addedAt\<close> is a valid \<open>Date\<close>, as keys to sort by: \<open>priority_key\<close> grows
  as the priority falls, from \<open>Infinity\<close> over the finite numbers to \<open>-Infinity\<close>, and
  \<open>dequeue_key\<close> orders by it first and by the time value of \<open>addedAt\<close> second.
\<close>

definition priority_key :: "number \<Rightarrow> int \<times> real" where
  "priority_key p =
     (case p of
        PosInfinity \<Rightarrow> (0, 0)
      | Finite r \<Rightarrow> (1, - r)
      | NegInfinity \<Rightarrow> (2, 0)
      | NaN \<Rightarrow> (3, 0))"

definition time_value :: "date \<Rightarrow> int" where
  "time_value d = (case d of Date_at t \<Rightarrow> t | Invalid_Date \<Rightarrow> 0)"

definition dequeue_key :: "'a queue_item \<Rightarrow> (int \<times> real) \<times> int" where
  "dequeue_key item = (priority_key (priority item), time_value (addedAt item))"

text \<open>
  Example states: a queue of four items after the calls \<open>example_calls\<close>, the same
  queue with two items handed out, with one item at its retry limit, and with two
  processors registered.
\<close>

definition example_options :: queue_options where
  "example_options =
     \<lparr>opt_maxSize = Some 10, opt_retryLimit = Some 2, opt_priorityEnabled = Some True\<rparr>"

definition example_calls :: "string enqueue_call list" where
  "example_calls =
     [\<lparr>call_uuid = ''a'', call_now = 100, call_data = ''low'', call_priority = Some (Finite 1)\<rparr>,
      \<lparr>call_uuid = ''b'', call_now = 100, call_data = ''high'', call_priority = Some (Finite 10)\<rparr>,
      \<lparr>call_uuid = ''c'', call_now = 101, call_data = ''medium'', call_priority = Some (Finite 5)\<rparr>,
      \<lparr>call_uuid = ''d'', call_now = 102, call_data = ''high too'',
       call_priority = Some (Finite 10)\<rparr>]"

definition example_item :: "string \<Rightarrow> string \<Rightarrow> int \<Rightarrow> real \<Rightarrow> int \<Rightarrow> string queue_item" where
  "example_item i d t p n =
     \<lparr>item_id = i, data = d, addedAt = Date_at t, priority = Finite p, processingAttempts = n\<rparr>"

definition loaded_queue :: "string queue" where
  "loaded_queue =
     \<lparr>items = [(''a'', example_item ''a'' ''low'' 100 1 0),
               (''b'', example_item ''b'' ''high'' 100 10 0),
               (''c'', example_item ''c'' ''medium'' 101 5 0),
               (''d'', example_item ''d'' ''high too'' 102 10 0)],
      processing = [],
      options = \<lparr>maxSize = 10, retryLimit = 2, priorityEnabled = True\<rparr>,
      processors = [],
      storageAdapter = None\<rparr>"

definition flight_queue :: "string queue" where
  "flight_queue = loaded_queue\<lparr>processing := [''b'', ''d'']\<rparr>"

definition spent_queue :: "string queue" where
  "spent_queue =
     loaded_queue\<lparr>items := [(''a'', example_item ''a'' ''low'' 100 1 0),
                            (''b'', example_item ''b'' ''high'' 100 10 2),
                            (''c'', example_item ''c'' ''medium'' 101 5 0),
                            (''d'', example_item ''d'' ''high too'' 102 10 0)],
                  processing := [''b'']\<rparr>"

definition thrower_queue :: "string queue" where
  "thrower_queue =
     registerProcessor (\<lambda>item. Resolves True) (registerProcessor (\<lambda>item. Rejects) loaded_queue)"

definition refuser_queue :: "string queue" where
  "refuser_queue =
     registerProcessor (\<lambda>item. Resolves True)
       (registerProcessor (\<lambda>item. Resolves False) loaded_queue)"

text \<open>
  Calls made while the clock was set back, one of them with the priority \<open>Infinity\<close>
  and one without a priority, and calls of which one has the priority \<open>NaN\<close>, as the
  command line passes it when the priority it is given is no number; with the queues
  they leave.
\<close>

definition late_calls :: "string enqueue_call list" where
  "late_calls =
     [\<lparr>call_uuid = ''x'', call_now = 200, call_data = ''first'', call_priority = Some (Finite 5)\<rparr>,
      \<lparr>call_uuid = ''y'', call_now = 100, call_data = ''second'', call_priority = Some (Finite 5)\<rparr>,
      \<lparr>call_uuid = ''z'', call_now = 150, call_data = ''third'', call_priority = Some PosInfinity\<rparr>,
      \<lparr>call_uuid = ''w'', call_now = 120, call_data = ''fourth'', call_priority = None\<rparr>]"

definition late_queue :: "string queue" where
  "late_queue =
     \<lparr>items = [(''x'', \<lparr>item_id = ''x'', data = ''first'', addedAt = Date_at 200,
                       priority = Finite 5, processingAttempts = 0\<rparr>),
               (''y'', \<lparr>item_id = ''y'', data = ''second'', addedAt = Date_at 100,
                       priority = Finite 5, processingAttempts = 0\<rparr>),
               (''z'', \<lparr>item_id = ''z'', data = ''third'', addedAt = Date_at 150,
                       priority = PosInfinity, processingAttempts = 0\<rparr>),
               (''w'', \<lparr>item_id = ''w'', data = ''fourth'', addedAt = Date_at 120,
                       priority = Finite 0, processingAttempts = 0\<rparr>)],
      processing = [],
      options = \<lparr>maxSize = 10, retryLimit = 2, priorityEnabled = True\<rparr>,
      processors = [],
      storageAdapter = None\<rparr>"

definition nan_calls :: "string enqueue_call list" where
  "nan_calls =
     [\<lparr>call_uuid = ''a'', call_now = 100, call_data = ''low'', call_priority = Some (Finite 1)\<rparr>,
      \<lparr>call_uuid = ''b'', call_now = 101, call_data = ''Hello'', call_priority = Some NaN\<rparr>,
      \<lparr>call_uuid = ''c'', call_now = 102, call_data = ''high'', call_priority = Some (Finite 5)\<rparr>]"

definition nan_queue :: "string queue" where
  "nan_queue =
     \<lparr>items = [(''a'', \<lparr>item_id = ''a'', data = ''low'', addedAt = Date_at 100,
                       priority = Finite 1, processingAttempts = 0\<rparr>),
               (''b'', \<lparr>item_id = ''b'', data = ''Hello'', addedAt = Date_at 101,
                       priority = NaN, processingAttempts = 0\<rparr>),
               (''c'', \<lparr>item_id = ''c'', data = ''high'', addedAt = Date_at 102,
                       priority = Finite 5, processingAttempts = 0\<rparr>)],
      processing = [],
      options = \<lparr>maxSize = 10, retryLimit = 2, priorityEnabled = True\<rparr>,
      processors = [],
      storageAdapter = None\<rparr>"

text \<open>
  A valid \<open>Date\<close> and a finite number, and example states of the disk and of
  snapshots: an item with the priority \<open>NaN\<close> and an \<open>Invalid Date\<close>, payloads with
  and without a \<open>Date\<close>, a manager without a storage directory and one with, and a
  disk that refuses to write one of the files.
\<close>

definition empty_disk :: file_system where
  "empty_disk = \<lparr>files = (\<lambda>p. None), unwritable = (\<lambda>p. False), unreadable = (\<lambda>p. False)\<rparr>"

definition valid_Date :: "date \<Rightarrow> bool" where
  "valid_Date d = (case d of Date_at t \<Rightarrow> \<bar>t\<bar> \<le> 8640000000000000 | Invalid_Date \<Rightarrow> False)"

definition finite_number :: "number \<Rightarrow> bool" where
  "finite_number n = (case n of Finite r \<Rightarrow> True | _ \<Rightarrow> False)"

definition lossy_item :: "string \<times> js_value queue_item" where
  "lossy_item =
     (''n'', \<lparr>item_id = ''n'', data = VString ''Hello'', addedAt = Invalid_Date,
              priority = NaN, processingAttempts = 0\<rparr>)"

definition dated_items :: "(string \<times> js_value queue_item) list" where
  "dated_items =
     [(''a'', \<lparr>item_id = ''a'', data = VObject [(''due'', VDate (Date_at 0))],
              addedAt = Date_at 1743627600000, priority = Finite 5, processingAttempts = 1\<rparr>)]"

definition plain_items :: "(string \<times> js_value queue_item) list" where
  "plain_items =
     [(''a'', \<lparr>item_id = ''a'', data = VObject [(''content'', VString ''A'')],
              addedAt = Date_at 1743627600000, priority = Finite 5, processingAttempts = 1\<rparr>),
      (''b'', \<lparr>item_id = ''b'', data = VUndefined, addedAt = Date_at (- 1),
              priority = Finite (- 2.5), processingAttempts = 0\<rparr>)]"

definition memory_manager :: "js_value queue_manager" where
  "memory_manager =
     (case createQueue ''messages'' None (QueueManager None) of
        Inl err \<Rightarrow> QueueManager None
      | Inr created \<Rightarrow> snd created)"

definition disk_manager :: "js_value queue_manager" where
  "disk_manager =
     (case createQueue ''messages'' None (QueueManager (Some ''data'')) of
        Inl err \<Rightarrow> QueueManager None
      | Inr first \<Rightarrow>
          (case createQueue ''tasks'' None (snd first) of
             Inl err \<Rightarrow> QueueManager None
           | Inr second \<Rightarrow> snd second))"

definition locked_disk :: file_system where
  "locked_disk = empty_disk\<lparr>unwritable := (\<lambda>p. p = ''data/messages.json'')\<rparr>"

definition empty_snapshot :: json where
  "empty_snapshot = JObject [(''items'', JArray []), (''processing'', JArray [])]"

text \<open>
  A subscriber that records each event it receives under its label, the filter
  \<open>eventTypes = ['itemAdded']\<close>, and the scenario of two subscriptions to one queue
  followed by \<open>complete(i)\<close> on that queue.
\<close>

definition recorder :: "string \<Rightarrow> ('a, (string \<times> 'a queue_event) list) queue_subscriber" where
  "recorder label event deliveries = deliveries @ [(label, event)]"

definition only_itemAdded :: "'a notification_options" where
  "only_itemAdded = \<lparr>eventTypes = Some [ItemAdded], filterFn = None\<rparr>"

definition subscribe_both_then_complete ::
  "string \<Rightarrow> ('a, 'w) queue_subscriber \<times> 'a notification_options option
   \<Rightarrow> ('a, 'w) queue_subscriber \<times> 'a notification_options option
   \<Rightarrow> int \<Rightarrow> string \<Rightarrow> ('a, 'w) notification_service \<Rightarrow> 'w
   \<Rightarrow> (bool \<times> bool \<times> bool \<times> 'w) option" where
  "subscribe_both_then_complete name first second now i svc w =
     (case subscribeToQueue name (fst first) (snd first) svc of (ok1, svc1) \<Rightarrow>
      case subscribeToQueue name (fst second) (snd second) svc1 of (ok2, svc2) \<Rightarrow>
        (case map_get (queueManager svc2) name of
           None \<Rightarrow> None
         | Some queue \<Rightarrow>
             (case complete_observed now i queue w of (ok, queue', w') \<Rightarrow>
                Some (ok1, ok2, ok, w'))))"

definition watched_service ::
  "(string, (string \<times> string queue_event) list) notification_service" where
  "watched_service =
     \<lparr>queueManager = [(''messages'',
          \<lparr>core = flight_queue, name_of_queue = ''messages'', subscribers = []\<rparr>)],
      tracked = []\<rparr>"

section \<open>Properties of the queue\<close>

subsection \<open>Construction defaults\<close>

text \<open>
  C9. A falsy option value is replaced by the built-in default: \<open>maxSize: 0\<close> gives a
  capacity of 1000, so that an \<open>enqueue\<close> on the new queue is not refused as full (it
  is refused exactly when the queue holds 1000 items or more), \<open>retryLimit: 0\<close> gives a
  retry limit of 3, and a queue built without options has \<open>maxSize = 1000\<close>,
  \<open>retryLimit = 3\<close> and \<open>priorityEnabled = false\<close>.
\<close>

theorem falsy_options_get_defaults:
  "maxSize (options (Queue (Some (given\<lparr>opt_maxSize := Some 0\<rparr>)))) = 1000
   \<and> enqueue uuid now d prio (Queue (Some (given\<lparr>opt_maxSize := Some 0\<rparr>)) :: 'a queue)
       = Inr (uuid, (Queue (Some (given\<lparr>opt_maxSize := Some 0\<rparr>)))
                \<lparr>items := [(uuid, \<lparr>item_id = uuid, data = d, addedAt = Date_at now,
                     priority = (if or_boolean (opt_priorityEnabled given) False
                                 then (case prio of None \<Rightarrow> Finite 0 | Some n \<Rightarrow> n)
                                 else Finite 0),
                     processingAttempts = 0\<rparr>)]\<rparr>)
   \<and> (enqueue uuid now d prio
         ((Queue (Some (given\<lparr>opt_maxSize := Some 0\<rparr>)) :: 'a queue)\<lparr>items := its\<rparr>)
       = Inl QueueFull) = (1000 \<le> length its)
   \<and> retryLimit (options (Queue (Some (given\<lparr>opt_retryLimit := Some 0\<rparr>)))) = 3
   \<and> options (Queue None) = \<lparr>maxSize = 1000, retryLimit = 3, priorityEnabled = False\<rparr>
   \<and> options (Queue (Some \<lparr>opt_maxSize = None, opt_retryLimit = None,
                            opt_priorityEnabled = None\<rparr>))
       = \<lparr>maxSize = 1000, retryLimit = 3, priorityEnabled = False\<rparr>"
  by (auto simp: Queue_def enqueue_def or_number_def or_boolean_def Let_def)

subsection \<open>Containers\<close>

lemma set_has_iff [simp]: "set_has s x \<longleftrightarrow> x \<in> set s"
  by (simp add: set_has_def)

lemma set_set_add [simp]: "set (set_add x s) = insert x (set s)"
  by (auto simp: set_add_def)

lemma set_set_delete [simp]: "set (set_delete x s) = set s - {x}"
  by (auto simp: set_delete_def)

lemma set_delete_set_add: "i \<notin> set p \<Longrightarrow> set_delete i (set_add i p) = p"
  by (simp add: set_delete_def set_add_def)

lemma map_fst_map_set:
  "map fst (map_set k v m) = (if k \<in> fst ` set m then map fst m else map fst m @ [k])"
  by (induction m) force+

lemma keys_map_set [simp]: "fst ` set (map_set k v m) = insert k (fst ` set m)"
proof -
  have "fst ` set (map_set k v m) = set (map fst (map_set k v m))" by simp
  also have "\<dots> = insert k (fst ` set m)"
    unfolding map_fst_map_set by force
  finally show ?thesis .
qed

lemma keys_map_delete [simp]: "fst ` set (map_delete k m) = fst ` set m - {k}"
  by (auto simp: map_delete_def)

lemma map_get_map_set [simp]: "map_get (map_set k v m) k' = (if k' = k then Some v else map_get m k')"
  by (induction m) (auto simp: map_get_def)

lemma map_get_map_delete [simp]:
  "map_get (map_delete k m) k' = (if k' = k then None else map_get m k')"
  by (induction m) (auto simp: map_get_def map_delete_def)

lemma map_get_None_iff: "map_get m k = None \<longleftrightarrow> k \<notin> fst ` set m"
  by (simp add: map_get_def map_of_eq_None_iff)

lemma set_map_set_subset: "set (map_set k v m) \<subseteq> insert (k, v) (set m)"
  by (induction m) (auto split: if_splits)

lemma length_map_set: "k \<in> fst ` set m \<Longrightarrow> length (map_set k v m) = length m"
  using map_fst_map_set [of k v m] by (metis length_map)

lemma length_map_delete:
  "distinct (map fst m) \<Longrightarrow> k \<in> fst ` set m \<Longrightarrow> length (map_delete k m) + 1 = length m"
proof (induction m)
  case Nil
  then show ?case by simp
next
  case (Cons e m)
  show ?case
  proof (cases "fst e = k")
    case True
    with Cons.prems have "\<forall>x \<in> set m. fst x \<noteq> k"
      by (metis distinct.simps(2) image_eqI list.simps(9) set_map)
    then have "filter (\<lambda>e. fst e \<noteq> k) m = m"
      by (simp add: filter_id_conv)
    with True show ?thesis by (simp add: map_delete_def)
  next
    case False
    with Cons show ?thesis by (auto simp: map_delete_def)
  qed
qed

lemma map_set_fresh: "k \<notin> fst ` set m \<Longrightarrow> map_set k v m = m @ [(k, v)]"
  by (induction m) auto

lemma insert_sorted_map:
  assumes "\<And>a b. compare (f a) (f b) = compare a b"
  shows "insert_sorted compare (f x) (map f ys) = map f (insert_sorted compare x ys)"
  by (induction ys) (simp_all add: assms SortCompare_def)

lemma js_sort_map:
  assumes "\<And>a b. compare (f a) (f b) = compare a b"
  shows "js_sort compare (map f xs) = map f (js_sort compare xs)"
  by (induction xs) (simp_all add: js_sort_def insert_sorted_map [of compare f, OF assms])

lemma set_insert_sorted [simp]: "set (insert_sorted compare x ys) = insert x (set ys)"
  by (induction ys) auto

lemma set_js_sort [simp]: "set (js_sort compare xs) = set xs"
  by (induction xs) (simp_all add: js_sort_def)

lemma js_sort_Nil_iff [simp]: "js_sort compare xs = [] \<longleftrightarrow> xs = []"
  by (metis set_js_sort set_empty)

lemma set_slice0: "set (slice0 xs limit) \<subseteq> set xs"
  by (auto simp: slice0_def dest: in_set_takeD)

lemma js_sort_Cons: "js_sort compare (x # xs) = insert_sorted compare x (js_sort compare xs)"
  by (simp add: js_sort_def)

lemma js_sort_run:
  "successively (\<lambda>x y. \<not> positive (SortCompare compare x y)) xs \<Longrightarrow> js_sort compare xs = xs"
proof (induction xs)
  case Nil
  then show ?case by (simp add: js_sort_def)
next
  case (Cons x xs)
  then show ?case by (cases xs) (simp_all add: js_sort_def)
qed

subsection \<open>Selection of the next item\<close>

lemma availableItems_Nil: "items q = [] \<Longrightarrow> availableItems q = []"
  by (simp add: availableItems_def map_values_def)

lemma peek_eq:
  "peek q = (if availableItems q = [] then None else Some (next_item q))"
  using availableItems_Nil [of q] by (auto simp: peek_def next_item_def)

lemma dequeue_eq:
  "dequeue q =
     (if availableItems q = [] then (None, q)
      else (Some (next_item q),
            q\<lparr>processing := set_add (item_id (next_item q)) (processing q)\<rparr>))"
  using availableItems_Nil [of q] by (auto simp: dequeue_def next_item_def Let_def)

lemma next_item_available:
  "availableItems q \<noteq> [] \<Longrightarrow> next_item q \<in> set (availableItems q)"
  by (metis next_item_def hd_in_set js_sort_Nil_iff set_js_sort)

lemma dequeue_peek:
  "dequeue q =
     (case peek q of
        None \<Rightarrow> (None, q)
      | Some item \<Rightarrow> (Some item, q\<lparr>processing := set_add (item_id item) (processing q)\<rparr>))"
  by (simp add: peek_eq dequeue_eq)

lemma peek_SomeD:
  assumes "peek q = Some item"
  shows "item \<in> snd ` set (items q)" and "item_id item \<notin> set (processing q)"
proof -
  from assms have "availableItems q \<noteq> []" and "item = next_item q"
    by (auto simp: peek_eq split: if_splits)
  then have "item \<in> set (availableItems q)" using next_item_available by blast
  then show "item \<in> snd ` set (items q)" and "item_id item \<notin> set (processing q)"
    by (auto simp: availableItems_def map_values_def)
qed

lemma set_browse: "set (browse limit q) \<subseteq> snd ` set (items q)"
  using set_slice0 [of "js_sort (browse_order q) (map_values (items q))"]
  by (auto simp: browse_def map_values_def)

subsection \<open>Example states\<close>

lemmas example_defs =
  example_options_def example_calls_def example_item_def loaded_queue_def flight_queue_def

lemmas queue_defs =
  Queue_def enqueue_def dequeue_def complete_def retry_def peek_def availableItems_def
  map_values_def map_get_def map_delete_def set_has_def set_add_def set_delete_def
  js_sort_def higher_priority_then_older_def older_first_def or_number_def or_boolean_def
  size_queue_def SortCompare_def positive_def strict_neq_def getTime_def

lemma loaded_queue_reached:
  "enqueue_calls example_calls (Queue (Some example_options)) = Inr loaded_queue"
  by (simp add: example_defs queue_defs Let_def)

lemma flight_queue_reached: "snd (dequeueMany 2 loaded_queue) = flight_queue"
  by (simp add: example_defs queue_defs dequeueMany_def Let_def eval_nat_numeral)

lemma late_queue_reached:
  "enqueue_calls late_calls (Queue (Some example_options)) = Inr late_queue"
  by (simp add: late_calls_def late_queue_def example_options_def queue_defs Let_def)

subsection \<open>The lookup in retry\<close>

text \<open>
  C10. In a state where every identifier in flight is a key of the map, the branch of
  \<open>retry\<close> that returns \<open>false\<close> because the map has no item for an identifier in
  flight is never taken: once \<open>retry(id)\<close> has passed the membership check, the lookup
  finds an item and \<open>retry\<close> goes on to one of its two other outcomes.
\<close>

theorem retry_lookup_succeeds:
  assumes "set (processing q) \<subseteq> fst ` set (items q)" and "set_has (processing q) i"
  shows "\<exists>item. map_get (items q) i = Some item
           \<and> retry i q =
               (if processingAttempts item \<ge> retryLimit (options q)
                then (False, q\<lparr>processing := set_delete i (processing q),
                               items := map_delete i (items q)\<rparr>)
                else (True, q\<lparr>items := map_set i
                                 (item\<lparr>processingAttempts := processingAttempts item + 1\<rparr>)
                                 (items q),
                              processing := set_delete i (processing q)\<rparr>))"
proof -
  from assms have "i \<in> fst ` set (items q)" by auto
  then obtain item where "map_get (items q) i = Some item"
    using map_get_None_iff [of "items q" i] by (cases "map_get (items q) i") auto
  then show ?thesis using assms(2)
    by (auto simp: retry_def or_number_def)
qed

theorem retry_lookup_succeeds_witness:
  "set (processing flight_queue) \<subseteq> fst ` set (items flight_queue)
   \<and> set_has (processing flight_queue) ''b''
   \<and> map_get (items flight_queue) ''b'' = Some (example_item ''b'' ''high'' 100 10 0)
   \<and> fst (retry ''b'' flight_queue) = True"
proof -
  have h1: "set (processing flight_queue) \<subseteq> fst ` set (items flight_queue)"
    by (simp add: example_defs)
  have h2: "set_has (processing flight_queue) ''b''"
    by (simp add: example_defs set_has_def)
  from retry_lookup_succeeds [OF h1 h2] h1 h2 show ?thesis
    by (auto simp: example_defs map_get_def)
qed

subsection \<open>complete and completeMany\<close>

lemma completeMany_loop_counts:
  "completeMany_loop ids counts q =
     (case completeMany_loop ids \<lparr>succeeded = 0, failed = 0\<rparr> q of
        (r, q') \<Rightarrow> (\<lparr>succeeded = succeeded counts + succeeded r,
                       failed = failed counts + failed r\<rparr>, q'))"
proof (induction ids arbitrary: counts q)
  case Nil
  then show ?case by simp
next
  case (Cons i ids)
  obtain ok q' where c: "complete i q = (ok, q')" by (cases "complete i q")
  show ?case
  proof (cases ok)
    case True
    with c show ?thesis
      using Cons.IH [of "counts\<lparr>succeeded := succeeded counts + 1\<rparr>" q']
            Cons.IH [of "\<lparr>succeeded = 1, failed = 0\<rparr>" q']
      by (simp split: prod.splits)
  next
    case False
    with c show ?thesis
      using Cons.IH [of "counts\<lparr>failed := failed counts + 1\<rparr>" q']
            Cons.IH [of "\<lparr>succeeded = 0, failed = 1\<rparr>" q']
      by (simp split: prod.splits)
  qed
qed

lemma completeMany_Cons:
  "completeMany (i # ids) q =
     (case complete i q of (ok, q') \<Rightarrow>
        case completeMany ids q' of (r, q'') \<Rightarrow>
          (\<lparr>succeeded = succeeded r + (if ok then 1 else 0),
            failed = failed r + (if ok then 0 else 1)\<rparr>, q''))"
proof -
  obtain ok q' where c: "complete i q = (ok, q')" by (cases "complete i q")
  show ?thesis
    using c completeMany_loop_counts [of ids "\<lparr>succeeded = 1, failed = 0\<rparr>" q']
      completeMany_loop_counts [of ids "\<lparr>succeeded = 0, failed = 1\<rparr>" q']
    by (cases ok) (simp_all add: completeMany_def split: prod.splits)
qed

lemma complete_twice: "complete i (snd (complete i q)) = (False, snd (complete i q))"
  by (simp add: complete_def)

text \<open>
  C7. \<open>complete(id)\<close> returns \<open>false\<close> and changes neither the map nor the set in
  flight when \<open>id\<close> is not in flight, which covers an unknown identifier and one that
  was completed before. \<open>completeMany(ids)\<close> applies \<open>complete\<close> to each identifier in
  turn and counts successes and failures, so the counts add up to the number of
  identifiers. With \<open>a\<close> and \<open>c\<close> in flight and \<open>b\<close> never dequeued,
  \<open>completeMany([a, b, c])\<close> returns \<open>{succeeded: 2, failed: 1}\<close>, removes \<open>a\<close> and
  \<open>c\<close> and leaves the entry of \<open>b\<close> as it was.
\<close>

theorem complete_not_in_flight_and_completeMany:
  "(\<not> set_has (processing q) i \<longrightarrow> complete i q = (False, q))
   \<and> complete i (snd (complete i q)) = (False, snd (complete i q))
   \<and> completeMany [] q = (\<lparr>succeeded = 0, failed = 0\<rparr>, q)
   \<and> completeMany (i # ids) q =
       (case complete i q of (ok, q') \<Rightarrow>
          case completeMany ids q' of (r, q'') \<Rightarrow>
            (\<lparr>succeeded = succeeded r + (if ok then 1 else 0),
              failed = failed r + (if ok then 0 else 1)\<rparr>, q''))
   \<and> succeeded (fst (completeMany ids q)) + failed (fst (completeMany ids q)) = int (length ids)
   \<and> (set_has (processing q) a \<and> set_has (processing q) c \<and> a \<noteq> c
        \<and> \<not> set_has (processing q) b \<longrightarrow>
        completeMany [a, b, c] q =
          (\<lparr>succeeded = 2, failed = 1\<rparr>,
           q\<lparr>processing := set_delete c (set_delete a (processing q)),
             items := map_delete c (map_delete a (items q))\<rparr>)
        \<and> map_get (items (snd (completeMany [a, b, c] q))) b = map_get (items q) b)"
proof -
  have len: "succeeded (fst (completeMany ids q)) + failed (fst (completeMany ids q))
             = int (length ids)" for ids and q :: "'a queue"
  proof (induction ids arbitrary: q)
    case Nil
    show ?case by (simp add: completeMany_def)
  next
    case (Cons j ids)
    obtain ok q' where c: "complete j q = (ok, q')" by (cases "complete j q")
    obtain r q'' where m: "completeMany ids q' = (r, q'')" by (cases "completeMany ids q'")
    from Cons.IH [of q'] m have "succeeded r + failed r = int (length ids)" by simp
    with c m show ?case by (simp add: completeMany_Cons)
  qed
  have scen: "completeMany [a, b, c] q =
          (\<lparr>succeeded = 2, failed = 1\<rparr>,
           q\<lparr>processing := set_delete c (set_delete a (processing q)),
             items := map_delete c (map_delete a (items q))\<rparr>)"
    if "set_has (processing q) a" "set_has (processing q) c" "a \<noteq> c"
       "\<not> set_has (processing q) b"
    using that by (simp add: completeMany_def complete_def)
  have b_kept: "map_get (items (snd (completeMany [a, b, c] q))) b = map_get (items q) b"
    if "set_has (processing q) a" "set_has (processing q) c" "a \<noteq> c"
       "\<not> set_has (processing q) b"
  proof -
    from that have "b \<noteq> a" "b \<noteq> c" by auto
    then show ?thesis using scen [OF that] by simp
  qed
  have unknown: "\<not> set_has (processing q) i \<longrightarrow> complete i q = (False, q)"
    by (simp add: complete_def)
  have none: "completeMany [] q = (\<lparr>succeeded = 0, failed = 0\<rparr>, q)"
    by (simp add: completeMany_def)
  from unknown complete_twice [of i q] none completeMany_Cons [of i ids q] len [of ids q]
    scen b_kept
  show ?thesis by (intro conjI impI) (simp_all only: simp_thms)
qed

theorem completeMany_witness:
  "set_has (processing flight_queue) ''b'' \<and> set_has (processing flight_queue) ''d''
   \<and> ''b'' \<noteq> ''d'' \<and> \<not> set_has (processing flight_queue) ''c''
   \<and> completeMany [''b'', ''c'', ''d''] flight_queue
       = (\<lparr>succeeded = 2, failed = 1\<rparr>,
          flight_queue\<lparr>processing := [],
                       items := [(''a'', example_item ''a'' ''low'' 100 1 0),
                                 (''c'', example_item ''c'' ''medium'' 101 5 0)]\<rparr>)
   \<and> map_get (items (snd (completeMany [''b'', ''c'', ''d''] flight_queue))) ''c''
       = Some (example_item ''c'' ''medium'' 101 5 0)
   \<and> \<not> set_has (processing flight_queue) ''zz''
   \<and> complete ''zz'' flight_queue = (False, flight_queue)"
proof -
  have h: "set_has (processing flight_queue) ''b''" "set_has (processing flight_queue) ''d''"
    "''b'' \<noteq> ''d''" "\<not> set_has (processing flight_queue) ''c''"
    "\<not> set_has (processing flight_queue) ''zz''"
    by (simp_all add: example_defs set_has_def)
  from complete_not_in_flight_and_completeMany [of flight_queue "''zz''" "[]" "''b''" "''d''" "''c''"] h
  show ?thesis
    by (simp add: example_defs set_delete_def map_delete_def map_get_def)
qed

subsection \<open>retry and the retry limit\<close>

lemma map_get_wf:
  assumes "wf_queue q" and "item \<in> snd ` set (items q)"
  shows "map_get (items q) (item_id item) = Some item"
proof -
  from assms(2) obtain k where k: "(k, item) \<in> set (items q)" by auto
  with assms(1) have "k = item_id item" by (auto simp: wf_queue_def)
  with k assms(1) show ?thesis by (simp add: map_get_def wf_queue_def)
qed

lemma values_map_set:
  assumes "distinct (map fst m)" and "\<forall>e \<in> set m. item_id (snd e) = fst e"
    and "map_get m i = Some item"
  shows "map_values (map_set i (item\<lparr>processingAttempts := a\<rparr>) m)
         = map (\<lambda>x. if item_id x = i then x\<lparr>processingAttempts := a\<rparr> else x) (map_values m)"
  using assms
proof (induction m)
  case Nil
  then show ?case by (simp add: map_get_def)
next
  case (Cons e m)
  show ?case
  proof (cases "fst e = i")
    case True
    with Cons.prems have e: "snd e = item" "item_id (snd e) = i"
      by (auto simp: map_get_def)
    from Cons.prems True have "\<forall>x \<in> set (map_values m). item_id x \<noteq> i"
      by (force simp: map_values_def)
    then have "map (\<lambda>x. if item_id x = i then x\<lparr>processingAttempts := a\<rparr> else x) (map_values m)
               = map_values m"
      by (simp add: map_idI)
    with True e show ?thesis by (cases e) (simp add: map_values_def)
  next
    case False
    with Cons.prems have "item_id (snd e) \<noteq> i" and "map_get m i = Some item"
      by (auto simp: map_get_def)
    with False Cons show ?thesis by (cases e) (simp add: map_values_def)
  qed
qed

lemma wf_queue_retry_update:
  assumes "wf_queue q" and "map_get (items q) i = Some item" and "item_id item = i"
  shows "wf_queue (q\<lparr>items := map_set i (item\<lparr>processingAttempts := a\<rparr>) (items q)\<rparr>)"
proof -
  from assms(2) have "i \<in> fst ` set (items q)"
    using map_get_None_iff [of "items q" i] by auto
  then have "map fst (map_set i (item\<lparr>processingAttempts := a\<rparr>) (items q)) = map fst (items q)"
    by (simp add: map_fst_map_set)
  moreover have "\<forall>e \<in> set (map_set i (item\<lparr>processingAttempts := a\<rparr>) (items q)).
                   item_id (snd e) = fst e"
    using set_map_set_subset [of i "item\<lparr>processingAttempts := a\<rparr>" "items q"] assms(1,3)
    by (auto simp: wf_queue_def)
  ultimately show ?thesis using assms(1) by (simp add: wf_queue_def)
qed

lemma next_item_retry_update:
  assumes "wf_queue q" and "map_get (items q) i = Some item" and "availableItems q \<noteq> []"
  shows "availableItems (q\<lparr>items := map_set i (item\<lparr>processingAttempts := a\<rparr>) (items q)\<rparr>)
         = map (\<lambda>x. if item_id x = i then x\<lparr>processingAttempts := a\<rparr> else x) (availableItems q)"
    and "next_item (q\<lparr>items := map_set i (item\<lparr>processingAttempts := a\<rparr>) (items q)\<rparr>)
         = (\<lambda>x. if item_id x = i then x\<lparr>processingAttempts := a\<rparr> else x) (next_item q)"
proof -
  let ?f = "\<lambda>x. if item_id x = i then x\<lparr>processingAttempts := a\<rparr> else x"
  let ?q = "q\<lparr>items := map_set i (item\<lparr>processingAttempts := a\<rparr>) (items q)\<rparr>"
  from assms(1,2) have v: "map_values (items ?q) = map ?f (map_values (items q))"
    by (simp add: values_map_set wf_queue_def)
  let ?P = "\<lambda>item. item_id item \<notin> set (processing q)"
  have "filter (?P \<circ> ?f) (map_values (items q)) = filter ?P (map_values (items q))"
    by (rule filter_cong) auto
  then have "filter ?P (map ?f (map_values (items q))) = map ?f (filter ?P (map_values (items q)))"
    by (simp only: filter_map)
  with v show av: "availableItems ?q = map ?f (availableItems q)"
    by (simp add: availableItems_def)
  have c1: "higher_priority_then_older (?f x) (?f y) = higher_priority_then_older x y" for x y
    by (simp add: higher_priority_then_older_def)
  have c2: "older_first (?f x) (?f y) = older_first x y" for x y
    by (simp add: older_first_def)
  from assms(3) show "next_item ?q = ?f (next_item q)"
    unfolding next_item_def av
    by (simp add: js_sort_map [of higher_priority_then_older ?f, OF c1]
          js_sort_map [of older_first ?f, OF c2] hd_map)
qed

lemma one_round:
  assumes "wf_queue q" and "peek q = Some item"
    and "processingAttempts item < retryLimit (options q)"
  shows "dequeue q = (Some item, q\<lparr>processing := set_add (item_id item) (processing q)\<rparr>)"
    and "retry (item_id item) (q\<lparr>processing := set_add (item_id item) (processing q)\<rparr>)
         = (True, q\<lparr>items := map_set (item_id item)
                      (item\<lparr>processingAttempts := processingAttempts item + 1\<rparr>) (items q)\<rparr>)"
    and "wf_queue (q\<lparr>items := map_set (item_id item)
                      (item\<lparr>processingAttempts := processingAttempts item + 1\<rparr>) (items q)\<rparr>)"
    and "peek (q\<lparr>items := map_set (item_id item)
                      (item\<lparr>processingAttempts := processingAttempts item + 1\<rparr>) (items q)\<rparr>)
         = Some (item\<lparr>processingAttempts := processingAttempts item + 1\<rparr>)"
proof -
  let ?i = "item_id item"
  let ?item' = "item\<lparr>processingAttempts := processingAttempts item + 1\<rparr>"
  from assms(2) show "dequeue q = (Some item, q\<lparr>processing := set_add ?i (processing q)\<rparr>)"
    by (simp add: dequeue_peek)
  from peek_SomeD [OF assms(2)] assms(1)
  have g: "map_get (items q) ?i = Some item" and n: "?i \<notin> set (processing q)"
    by (simp_all add: map_get_wf)
  from g n assms(3)
  show "retry ?i (q\<lparr>processing := set_add ?i (processing q)\<rparr>)
        = (True, q\<lparr>items := map_set ?i ?item' (items q)\<rparr>)"
    by (simp add: retry_def or_number_def set_delete_set_add)
  from assms(1) g show "wf_queue (q\<lparr>items := map_set ?i ?item' (items q)\<rparr>)"
    by (rule wf_queue_retry_update) simp
  from assms(2) have av: "availableItems q \<noteq> []" and nx: "next_item q = item"
    by (auto simp: peek_eq split: if_splits)
  from next_item_retry_update [OF assms(1) g av, of "processingAttempts item + 1"] av nx
  show "peek (q\<lparr>items := map_set ?i ?item' (items q)\<rparr>) = Some ?item'"
    by (simp add: peek_eq)
qed

lemma rounds_until_limit:
  assumes "wf_queue q" and "peek q = Some item"
    and "processingAttempts item + int n \<le> retryLimit (options q)"
  shows "\<exists>q'. dequeue_retry_rounds n (item_id item) q
                  = (replicate n (Some (item_id item), True), q')
              \<and> wf_queue q'
              \<and> peek q' = Some (item\<lparr>processingAttempts := processingAttempts item + int n\<rparr>)
              \<and> options q' = options q
              \<and> length (items q') = length (items q)"
  using assms
proof (induction n arbitrary: q item)
  case 0
  then show ?case by simp
next
  case (Suc n)
  let ?item' = "item\<lparr>processingAttempts := processingAttempts item + 1\<rparr>"
  let ?q2 = "q\<lparr>items := map_set (item_id item) ?item' (items q)\<rparr>"
  from Suc.prems have lt: "processingAttempts item < retryLimit (options q)" by simp
  note r = one_round [OF Suc.prems(1,2) lt]
  from Suc.prems have "processingAttempts ?item' + int n \<le> retryLimit (options ?q2)" by simp
  from Suc.IH [OF r(3) r(4) this]
  obtain q' where q': "dequeue_retry_rounds n (item_id item) ?q2
                        = (replicate n (Some (item_id item), True), q')"
      "wf_queue q'"
      "peek q' = Some (item\<lparr>processingAttempts := processingAttempts item + 1 + int n\<rparr>)"
      "options q' = options q" "length (items q') = length (items ?q2)"
    by auto
  from peek_SomeD(1) [OF Suc.prems(2)] Suc.prems(1)
  have "item_id item \<in> fst ` set (items q)"
    using map_get_wf [of q item] map_get_None_iff [of "items q" "item_id item"] by auto
  then have "length (items ?q2) = length (items q)" by (simp add: length_map_set)
  with q' r(1,2) show ?case by (simp add: add.commute add.left_commute)
qed

lemma retry_exhausted:
  assumes "wf_queue q" and "peek q = Some item"
    and "processingAttempts item \<ge> retryLimit (options q)"
  shows "\<exists>q2 q3. dequeue q = (Some item, q2) \<and> retry (item_id item) q2 = (False, q3)
           \<and> size_queue q3 = size_queue q - 1
           \<and> item_id item \<notin> item_id ` set (browse limit q3)
           \<and> map_get (items q3) (item_id item) = None"
proof -
  let ?i = "item_id item"
  let ?q2 = "q\<lparr>processing := set_add ?i (processing q)\<rparr>"
  let ?q3 = "?q2\<lparr>processing := set_delete ?i (processing ?q2),
               items := map_delete ?i (items ?q2)\<rparr>"
  from assms(2) have d: "dequeue q = (Some item, ?q2)" by (simp add: dequeue_peek)
  from peek_SomeD(1) [OF assms(2)] assms(1)
  have g: "map_get (items q) ?i = Some item" by (simp add: map_get_wf)
  with assms(3) have r: "retry ?i ?q2 = (False, ?q3)" by (simp add: retry_def)
  from g have "?i \<in> fst ` set (items q)"
    using map_get_None_iff [of "items q" ?i] by auto
  with assms(1) have "length (map_delete ?i (items q)) + 1 = length (items q)"
    using length_map_delete [of "items q" ?i] by (simp add: wf_queue_def)
  then have s: "size_queue ?q3 = size_queue q - 1" by (simp add: size_queue_def)
  have "\<forall>e \<in> set (items ?q3). item_id (snd e) \<noteq> ?i"
    using assms(1) by (auto simp: wf_queue_def map_delete_def)
  then have b: "?i \<notin> item_id ` set (browse limit ?q3)"
    using set_browse [of limit ?q3] by fastforce
  have "map_get (items ?q3) ?i = None" by simp
  with d r s b show ?thesis by blast
qed

text \<open>
  C2. \<open>retry(id)\<close> returns \<open>false\<close> and changes nothing when \<open>id\<close> is not in
  flight. When \<open>id\<close> is in flight and its item has \<open>processingAttempts\<close> at or above
  \<open>retryLimit\<close>, the item leaves the map and the set in flight and the call returns
  \<open>false\<close>. Otherwise \<open>processingAttempts\<close> grows by exactly one, \<open>id\<close> leaves the set
  in flight, the item stays in the map and the call returns \<open>true\<close>. Consequently, in
  a well-formed state (as every reachable state is, \<open>wf_queue_run\<close> below), for an item
  with no attempts yet that \<open>dequeue\<close> hands out: after \<open>retryLimit\<close> rounds
  of \<open>dequeue\<close> and \<open>retry\<close>, each handing out that item and answering \<open>true\<close>, one
  more \<open>dequeue\<close> hands it out again with \<open>retryLimit\<close> attempts, and the \<open>retry\<close>
  that follows returns \<open>false\<close>: \<open>size()\<close> has dropped by one and the item is in no
  \<open>browse\<close> listing.
\<close>

theorem retry_three_ways_and_exhaustion:
  "(\<not> set_has (processing q) i \<longrightarrow> retry i q = (False, q))
   \<and> (set_has (processing q) i \<and> map_get (items q) i = Some item
        \<and> processingAttempts item \<ge> retryLimit (options q) \<longrightarrow>
        retry i q = (False, q\<lparr>processing := set_delete i (processing q),
                              items := map_delete i (items q)\<rparr>)
        \<and> map_get (items (snd (retry i q))) i = None
        \<and> \<not> set_has (processing (snd (retry i q))) i)
   \<and> (set_has (processing q) i \<and> map_get (items q) i = Some item
        \<and> processingAttempts item < retryLimit (options q) \<longrightarrow>
        retry i q = (True, q\<lparr>items := map_set i
                               (item\<lparr>processingAttempts := processingAttempts item + 1\<rparr>)
                               (items q),
                             processing := set_delete i (processing q)\<rparr>)
        \<and> map_get (items (snd (retry i q))) i
            = Some (item\<lparr>processingAttempts := processingAttempts item + 1\<rparr>)
        \<and> \<not> set_has (processing (snd (retry i q))) i)
   \<and> (wf_queue q0 \<and> peek q0 = Some item0 \<and> processingAttempts item0 = 0
        \<and> retryLimit (options q0) = int n \<longrightarrow>
        (case dequeue_retry_rounds n (item_id item0) q0 of (answers, q1) \<Rightarrow>
           answers = replicate n (Some (item_id item0), True)
           \<and> (case dequeue q1 of (d, q2) \<Rightarrow>
                 d = Some (item0\<lparr>processingAttempts := int n\<rparr>)
                 \<and> (case retry (item_id item0) q2 of (ok, q3) \<Rightarrow>
                       ok = False
                       \<and> size_queue q3 = size_queue q0 - 1
                       \<and> item_id item0 \<notin> item_id ` set (browse limit q3)
                       \<and> map_get (items q3) (item_id item0) = None))))"
proof (intro conjI impI)
  show "retry i q = (False, q)" if "\<not> set_has (processing q) i"
    using that by (simp add: retry_def)
next
  assume a: "set_has (processing q) i \<and> map_get (items q) i = Some item
             \<and> processingAttempts item \<ge> retryLimit (options q)"
  then show r: "retry i q = (False, q\<lparr>processing := set_delete i (processing q),
                                       items := map_delete i (items q)\<rparr>)"
    by (simp add: retry_def)
  show "map_get (items (snd (retry i q))) i = None" by (simp add: r)
  show "\<not> set_has (processing (snd (retry i q))) i" by (simp add: r)
next
  assume a: "set_has (processing q) i \<and> map_get (items q) i = Some item
             \<and> processingAttempts item < retryLimit (options q)"
  then show r: "retry i q = (True, q\<lparr>items := map_set i
                               (item\<lparr>processingAttempts := processingAttempts item + 1\<rparr>)
                               (items q),
                             processing := set_delete i (processing q)\<rparr>)"
    by (simp add: retry_def or_number_def)
  show "map_get (items (snd (retry i q))) i
        = Some (item\<lparr>processingAttempts := processingAttempts item + 1\<rparr>)"
    by (simp add: r)
  show "\<not> set_has (processing (snd (retry i q))) i" by (simp add: r)
next
  assume a: "wf_queue q0 \<and> peek q0 = Some item0 \<and> processingAttempts item0 = 0
             \<and> retryLimit (options q0) = int n"
  then have "processingAttempts item0 + int n \<le> retryLimit (options q0)" by simp
  with a obtain q1 where q1:
      "dequeue_retry_rounds n (item_id item0) q0 = (replicate n (Some (item_id item0), True), q1)"
      "wf_queue q1" "peek q1 = Some (item0\<lparr>processingAttempts := int n\<rparr>)"
      "options q1 = options q0" "length (items q1) = length (items q0)"
    using rounds_until_limit [of q0 item0 n] by auto
  let ?item = "item0\<lparr>processingAttempts := int n\<rparr>"
  from a q1 have "processingAttempts ?item \<ge> retryLimit (options q1)" by simp
  from retry_exhausted [OF q1(2,3) this, of limit]
  obtain q2 q3 where e: "dequeue q1 = (Some ?item, q2)"
      "retry (item_id item0) q2 = (False, q3)" "size_queue q3 = size_queue q1 - 1"
      "item_id item0 \<notin> item_id ` set (browse limit q3)"
      "map_get (items q3) (item_id item0) = None"
    by auto
  from q1(5) have "size_queue q1 = size_queue q0" by (simp add: size_queue_def)
  with q1(1) e
  show "case dequeue_retry_rounds n (item_id item0) q0 of (answers, q1) \<Rightarrow>
           answers = replicate n (Some (item_id item0), True)
           \<and> (case dequeue q1 of (d, q2) \<Rightarrow>
                 d = Some (item0\<lparr>processingAttempts := int n\<rparr>)
                 \<and> (case retry (item_id item0) q2 of (ok, q3) \<Rightarrow>
                       ok = False
                       \<and> size_queue q3 = size_queue q0 - 1
                       \<and> item_id item0 \<notin> item_id ` set (browse limit q3)
                       \<and> map_get (items q3) (item_id item0) = None))"
    by simp
qed

theorem retry_witness:
  "\<not> set_has (processing flight_queue) ''zz''
   \<and> retry ''zz'' flight_queue = (False, flight_queue)
   \<and> set_has (processing spent_queue) ''b''
   \<and> map_get (items spent_queue) ''b'' = Some (example_item ''b'' ''high'' 100 10 2)
   \<and> processingAttempts (example_item ''b'' ''high'' 100 10 2) \<ge> retryLimit (options spent_queue)
   \<and> fst (retry ''b'' spent_queue) = False
   \<and> map_get (items (snd (retry ''b'' spent_queue))) ''b'' = None
   \<and> set_has (processing flight_queue) ''b''
   \<and> map_get (items flight_queue) ''b'' = Some (example_item ''b'' ''high'' 100 10 0)
   \<and> processingAttempts (example_item ''b'' ''high'' 100 10 0) < retryLimit (options flight_queue)
   \<and> fst (retry ''b'' flight_queue) = True
   \<and> map_get (items (snd (retry ''b'' flight_queue))) ''b''
       = Some (example_item ''b'' ''high'' 100 10 1)
   \<and> wf_queue loaded_queue
   \<and> peek loaded_queue = Some (example_item ''b'' ''high'' 100 10 0)
   \<and> retryLimit (options loaded_queue) = int 2
   \<and> fst (dequeue_retry_rounds 2 ''b'' loaded_queue) = [(Some ''b'', True), (Some ''b'', True)]
   \<and> fst (dequeue (snd (dequeue_retry_rounds 2 ''b'' loaded_queue)))
       = Some (example_item ''b'' ''high'' 100 10 2)
   \<and> fst (retry ''b'' (snd (dequeue (snd (dequeue_retry_rounds 2 ''b'' loaded_queue))))) = False
   \<and> size_queue (snd (retry ''b'' (snd (dequeue (snd (dequeue_retry_rounds 2 ''b'' loaded_queue))))))
       = 3"
proof -
  let ?b0 = "example_item ''b'' ''high'' 100 10 0"
  let ?b2 = "example_item ''b'' ''high'' 100 10 2"
  have a: "\<not> set_has (processing flight_queue) ''zz''"
    by (simp add: example_defs set_has_def)
  have b: "set_has (processing spent_queue) ''b''"
    "map_get (items spent_queue) ''b'' = Some ?b2"
    "processingAttempts ?b2 \<ge> retryLimit (options spent_queue)"
    by (simp_all add: example_defs spent_queue_def set_has_def map_get_def)
  have c: "set_has (processing flight_queue) ''b''"
    "map_get (items flight_queue) ''b'' = Some ?b0"
    "processingAttempts ?b0 < retryLimit (options flight_queue)"
    by (simp_all add: example_defs set_has_def map_get_def)
  have d: "wf_queue loaded_queue" "peek loaded_queue = Some ?b0"
    "processingAttempts ?b0 = 0" "retryLimit (options loaded_queue) = int 2"
    by (simp_all add: example_defs wf_queue_def queue_defs)
  have id: "item_id ?b0 = ''b''" "?b0\<lparr>processingAttempts := int 2\<rparr> = ?b2"
    "?b0\<lparr>processingAttempts := processingAttempts ?b0 + 1\<rparr> = example_item ''b'' ''high'' 100 10 1"
    "size_queue loaded_queue = 4"
    by (simp_all add: example_defs size_queue_def)
  note t = retry_three_ways_and_exhaustion
  from a have 1: "retry ''zz'' flight_queue = (False, flight_queue)"
    by (rule t [THEN conjunct1, THEN mp])
  from b have "set_has (processing spent_queue) ''b''
      \<and> map_get (items spent_queue) ''b'' = Some ?b2
      \<and> processingAttempts ?b2 \<ge> retryLimit (options spent_queue)"
    by simp
  from t [THEN conjunct2, THEN conjunct1, THEN mp, OF this]
  have 2: "fst (retry ''b'' spent_queue) = False"
    "map_get (items (snd (retry ''b'' spent_queue))) ''b'' = None"
    by simp_all
  from c have "set_has (processing flight_queue) ''b''
      \<and> map_get (items flight_queue) ''b'' = Some ?b0
      \<and> processingAttempts ?b0 < retryLimit (options flight_queue)"
    by simp
  from t [THEN conjunct2, THEN conjunct2, THEN conjunct1, THEN mp, OF this]
  have 3: "fst (retry ''b'' flight_queue) = True"
    "map_get (items (snd (retry ''b'' flight_queue))) ''b'' = Some (example_item ''b'' ''high'' 100 10 1)"
    by (simp_all add: id)
  from d have "wf_queue loaded_queue \<and> peek loaded_queue = Some ?b0
      \<and> processingAttempts ?b0 = 0 \<and> retryLimit (options loaded_queue) = int 2"
    by simp
  from t [THEN conjunct2, THEN conjunct2, THEN conjunct2, THEN mp, OF this, of None]
  have 4: "fst (dequeue_retry_rounds 2 ''b'' loaded_queue) = [(Some ''b'', True), (Some ''b'', True)]"
    "fst (dequeue (snd (dequeue_retry_rounds 2 ''b'' loaded_queue))) = Some ?b2"
    "fst (retry ''b'' (snd (dequeue (snd (dequeue_retry_rounds 2 ''b'' loaded_queue))))) = False"
    "size_queue (snd (retry ''b'' (snd (dequeue (snd (dequeue_retry_rounds 2 ''b'' loaded_queue))))))
       = 3"
    unfolding id by (auto simp: eval_nat_numeral split: prod.splits)
  from a b c d 1 2 3 4 show ?thesis by simp
qed

subsection \<open>The set in flight stays within the keys\<close>

lemma in_flight_known_Queue: "in_flight_known (Queue opts)"
  by (simp add: in_flight_known_def Queue_def Let_def)

lemma in_flight_known_enqueue:
  "in_flight_known q \<Longrightarrow> enqueue uuid now d prio q = Inr (i, q') \<Longrightarrow> in_flight_known q'"
  using set_map_set_subset [of uuid _ "items q"]
  by (fastforce simp: in_flight_known_def enqueue_def Let_def split: if_splits)

lemma in_flight_known_dequeue:
  assumes "in_flight_known q"
  shows "in_flight_known (snd (dequeue q))"
proof (cases "availableItems q = []")
  case True
  with assms show ?thesis by (simp add: dequeue_eq)
next
  case False
  then have "next_item q \<in> snd ` set (items q)"
    using next_item_available [of q] by (auto simp: availableItems_def map_values_def)
  with assms have "item_id (next_item q) \<in> fst ` set (items q)"
    by (force simp: in_flight_known_def)
  with assms False show ?thesis by (simp add: dequeue_eq in_flight_known_def)
qed

lemma in_flight_known_complete: "in_flight_known q \<Longrightarrow> in_flight_known (snd (complete i q))"
  by (auto simp: in_flight_known_def complete_def map_delete_def)

lemma in_flight_known_retry:
  assumes "in_flight_known q"
  shows "in_flight_known (snd (retry i q))"
proof (cases "set_has (processing q) i")
  case False
  with assms show ?thesis by (simp add: retry_def)
next
  case True
  show ?thesis
  proof (cases "map_get (items q) i")
    case None
    with assms True show ?thesis by (simp add: retry_def)
  next
    case (Some item)
    then have "(i, item) \<in> set (items q)" by (simp add: map_get_def map_of_SomeD)
    with assms have id: "item_id item = i" by (auto simp: in_flight_known_def)
    show ?thesis
    proof (cases "processingAttempts item \<ge> retryLimit (options q)")
      case True
      with assms Some \<open>set_has (processing q) i\<close> show ?thesis
        by (auto simp: in_flight_known_def retry_def map_delete_def)
    next
      case False
      have "\<forall>e \<in> set (map_set i (item\<lparr>processingAttempts := a\<rparr>) (items q)).
              item_id (snd e) = fst e" for a
        using set_map_set_subset [of i "item\<lparr>processingAttempts := a\<rparr>" "items q"] assms id
        by (auto simp: in_flight_known_def)
      with assms Some False \<open>set_has (processing q) i\<close> show ?thesis
        by (auto simp: in_flight_known_def retry_def)
    qed
  qed
qed

lemma in_flight_known_dequeueMany_loop:
  "in_flight_known q \<Longrightarrow> in_flight_known (snd (dequeueMany_loop n results q))"
proof (induction n arbitrary: results q)
  case 0
  then show ?case by simp
next
  case (Suc n)
  from in_flight_known_dequeue [OF Suc.prems] Suc.IH show ?case
    by (cases "dequeue q") (auto split: option.splits)
qed

lemma in_flight_known_completeMany_loop:
  "in_flight_known q \<Longrightarrow> in_flight_known (snd (completeMany_loop ids counts q))"
proof (induction ids arbitrary: counts q)
  case Nil
  then show ?case by simp
next
  case (Cons i ids)
  from in_flight_known_complete [OF Cons.prems, of i] Cons.IH show ?case
    by (cases "complete i q") (auto split: bool.splits)
qed

lemma in_flight_known_retryMany_loop:
  "in_flight_known q \<Longrightarrow> in_flight_known (snd (retryMany_loop ids counts q))"
proof (induction ids arbitrary: counts q)
  case Nil
  then show ?case by simp
next
  case (Cons i ids)
  from in_flight_known_retry [OF Cons.prems, of i] Cons.IH show ?case
    by (cases "retry i q") (auto split: bool.splits)
qed

lemma in_flight_known_clear: "in_flight_known (clear q)"
  by (simp add: in_flight_known_def clear_def)

lemma in_flight_known_apply:
  assumes "in_flight_known q"
  shows "in_flight_known (apply_operation operation q)"
proof (cases operation)
  case (Enqueue uuid now d prio)
  with assms show ?thesis
    using in_flight_known_enqueue [of q uuid now d prio]
    by (auto split: sum.splits)
next
  case Peek
  with assms show ?thesis by (simp split: option.splits)
qed (simp_all add: assms in_flight_known_dequeue in_flight_known_complete
       in_flight_known_retry in_flight_known_dequeueMany_loop
       in_flight_known_completeMany_loop in_flight_known_retryMany_loop
       in_flight_known_clear dequeueMany_def completeMany_def retryMany_def)

lemma in_flight_known_run:
  "in_flight_known q \<Longrightarrow> in_flight_known (run_operations ops q)"
  unfolding run_operations_def
  by (induction ops arbitrary: q) (simp_all add: in_flight_known_apply)

text \<open>
  C6. In every state a new queue reaches by any sequence of \<open>enqueue\<close>, \<open>dequeue\<close>,
  \<open>peek\<close>, \<open>complete\<close>, \<open>retry\<close>, \<open>clear\<close>, \<open>dequeueMany\<close>, \<open>completeMany\<close> and
  \<open>retryMany\<close> calls, with any arguments, every identifier in flight is a key of the
  map.
\<close>

theorem in_flight_subset_of_keys:
  "set (processing (run_operations ops (Queue opts)))
   \<subseteq> fst ` set (items (run_operations ops (Queue opts)))"
  using in_flight_known_run [OF in_flight_known_Queue, of ops opts]
  by (simp add: in_flight_known_def)

subsection \<open>Reachable states are well formed\<close>

text \<open>
  The operations keep the keys of the map distinct, so every state a new queue reaches
  satisfies \<open>wf_queue\<close>.
\<close>

lemma distinct_keys_map_set:
  "distinct (map fst m) \<Longrightarrow> distinct (map fst (map_set k v m))"
  by (simp add: map_fst_map_set)

lemma distinct_keys_map_delete:
  "distinct (map fst m) \<Longrightarrow> distinct (map fst (map_delete k m))"
  by (simp add: map_delete_def distinct_map_filter)

lemma distinct_keys_dequeue:
  "distinct (map fst (items q)) \<Longrightarrow> distinct (map fst (items (snd (dequeue q))))"
  by (simp add: dequeue_eq)

lemma distinct_keys_complete:
  "distinct (map fst (items q)) \<Longrightarrow> distinct (map fst (items (snd (complete i q))))"
  by (simp add: complete_def distinct_keys_map_delete)

lemma distinct_keys_retry:
  "distinct (map fst (items q)) \<Longrightarrow> distinct (map fst (items (snd (retry i q))))"
  by (simp add: retry_def distinct_keys_map_delete distinct_keys_map_set split: option.splits)

lemma distinct_keys_dequeueMany_loop:
  "distinct (map fst (items q)) \<Longrightarrow>
   distinct (map fst (items (snd (dequeueMany_loop n results q))))"
proof (induction n arbitrary: results q)
  case 0
  then show ?case by simp
next
  case (Suc n)
  from distinct_keys_dequeue [OF Suc.prems] Suc.IH show ?case
    by (cases "dequeue q") (auto split: option.splits)
qed

lemma distinct_keys_completeMany_loop:
  "distinct (map fst (items q)) \<Longrightarrow>
   distinct (map fst (items (snd (completeMany_loop ids counts q))))"
proof (induction ids arbitrary: counts q)
  case Nil
  then show ?case by simp
next
  case (Cons i ids)
  from distinct_keys_complete [OF Cons.prems, of i] Cons.IH show ?case
    by (cases "complete i q") (auto split: bool.splits)
qed

lemma distinct_keys_retryMany_loop:
  "distinct (map fst (items q)) \<Longrightarrow>
   distinct (map fst (items (snd (retryMany_loop ids counts q))))"
proof (induction ids arbitrary: counts q)
  case Nil
  then show ?case by simp
next
  case (Cons i ids)
  from distinct_keys_retry [OF Cons.prems, of i] Cons.IH show ?case
    by (cases "retry i q") (auto split: bool.splits)
qed

lemma distinct_keys_apply:
  assumes "distinct (map fst (items q))"
  shows "distinct (map fst (items (apply_operation operation q)))"
proof (cases operation)
  case (Enqueue uuid now d prio)
  with assms show ?thesis
    by (auto simp: enqueue_def Let_def distinct_keys_map_set split: sum.splits if_splits)
next
  case Peek
  with assms show ?thesis by (simp split: option.splits)
qed (simp_all add: assms distinct_keys_dequeue distinct_keys_complete distinct_keys_retry
       distinct_keys_dequeueMany_loop distinct_keys_completeMany_loop
       distinct_keys_retryMany_loop dequeueMany_def completeMany_def retryMany_def clear_def)

lemma wf_queue_run: "wf_queue (run_operations ops (Queue opts))"
proof -
  have "distinct (map fst (items q)) \<Longrightarrow> distinct (map fst (items (run_operations ops q)))"
    for q :: "'a queue"
    unfolding run_operations_def
    by (induction ops arbitrary: q) (simp_all add: distinct_keys_apply)
  from this [of "Queue opts"] have "distinct (map fst (items (run_operations ops (Queue opts))))"
    by (simp add: Queue_def Let_def)
  with in_flight_known_run [OF in_flight_known_Queue, of ops opts] show ?thesis
    by (simp add: wf_queue_def in_flight_known_def)
qed

subsection \<open>processNext\<close>

lemma run_processors_calls:
  "run_processors ps item calls =
     (let k = length (takeWhile (\<lambda>p. p item = Resolves False) ps)
      in if k = length ps then (FellThrough, calls + k)
         else if (ps ! k) item = Resolves True then (Succeeded, calls + k + 1)
         else (Threw, calls + k + 1))"
proof (induction ps arbitrary: calls)
  case Nil
  then show ?case by simp
next
  case (Cons p ps)
  show ?case
  proof (cases "p item")
    case Rejects
    then show ?thesis by simp
  next
    case (Resolves success)
    with Cons show ?thesis by (cases success) (simp_all add: Let_def)
  qed
qed

lemma processors_dequeue: "processors (snd (dequeue q)) = processors q"
  by (simp add: dequeue_eq)

text \<open>
  C4, as the code has it. \<open>processNext\<close> returns \<open>false\<close> and leaves the queue as it
  was when no item can be dequeued. Otherwise it calls the processors in registration
  order while they return \<open>false\<close>. If all of them did, the item is retried and the
  result is \<open>false\<close>. If the first processor that did not return \<open>false\<close> returned
  \<open>true\<close>, the item is completed and the result is \<open>true\<close>. If it threw, no later
  processor is called, the item is retried and the result is \<open>false\<close>.
\<close>

theorem processNext_stops_at_a_throw:
  "(dequeue q = (None, q') \<longrightarrow> processNext q = (False, 0, q) \<and> q' = q)
   \<and> (dequeue q = (Some item, q1) \<longrightarrow>
        (let k = length (takeWhile (\<lambda>p. p item = Resolves False) (processors q))
         in if k = length (processors q)
            then processNext q = (False, k, snd (retry (item_id item) q1))
            else if (processors q ! k) item = Resolves True
            then processNext q = (True, k + 1, snd (complete (item_id item) q1))
            else (processors q ! k) item = Rejects
                 \<and> processNext q = (False, k + 1, snd (retry (item_id item) q1))))"
proof (intro conjI impI)
  assume "dequeue q = (None, q')"
  then show "processNext q = (False, 0, q)" and "q' = q"
    by (auto simp: processNext_def dequeue_eq split: if_splits)
next
  assume d: "dequeue q = (Some item, q1)"
  then have p: "processors q1 = processors q"
    using processors_dequeue [of q] by simp
  let ?k = "length (takeWhile (\<lambda>p. p item = Resolves False) (processors q))"
  have le: "?k \<le> length (processors q)" by (rule length_takeWhile_le)
  have stop: "(processors q ! ?k) item \<noteq> Resolves False" if "?k \<noteq> length (processors q)"
    using that le nth_length_takeWhile [of "\<lambda>p. p item = Resolves False" "processors q"]
    by simp
  have rej: "(processors q ! ?k) item = Rejects"
    if "?k \<noteq> length (processors q)" "(processors q ! ?k) item \<noteq> Resolves True"
    using that stop by (cases "(processors q ! ?k) item") auto
  show "let k = ?k
         in if k = length (processors q)
            then processNext q = (False, k, snd (retry (item_id item) q1))
            else if (processors q ! k) item = Resolves True
            then processNext q = (True, k + 1, snd (complete (item_id item) q1))
            else (processors q ! k) item = Rejects
                 \<and> processNext q = (False, k + 1, snd (retry (item_id item) q1))"
    using d p rej
    by (simp add: processNext_def run_processors_calls [of "processors q" item 0] Let_def)
qed

theorem processNext_witness:
  "dequeue (Queue None :: string queue) = (None, Queue None)
   \<and> processNext (Queue None :: string queue) = (False, 0, Queue None)
   \<and> dequeue thrower_queue
       = (Some (example_item ''b'' ''high'' 100 10 0), thrower_queue\<lparr>processing := [''b'']\<rparr>)
   \<and> fst (processNext thrower_queue) = False
   \<and> fst (snd (processNext thrower_queue)) = 1"
proof -
  have h1: "dequeue (Queue None :: string queue) = (None, Queue None)"
    by (simp add: queue_defs Let_def)
  have h2: "dequeue thrower_queue
       = (Some (example_item ''b'' ''high'' 100 10 0), thrower_queue\<lparr>processing := [''b'']\<rparr>)"
    by (simp add: thrower_queue_def registerProcessor_def example_defs queue_defs Let_def)
  have p: "processors thrower_queue = [\<lambda>item. Rejects, \<lambda>item. Resolves True]"
    by (simp add: thrower_queue_def registerProcessor_def example_defs)
  from processNext_stops_at_a_throw [THEN conjunct1, THEN mp, OF h1]
  have 1: "processNext (Queue None :: string queue) = (False, 0, Queue None)" by simp
  from processNext_stops_at_a_throw [THEN conjunct2, THEN mp, OF h2]
  have 2: "fst (processNext thrower_queue) = False" "fst (snd (processNext thrower_queue)) = 1"
    by (simp_all add: p Let_def)
  from h1 h2 1 2 show ?thesis by simp
qed

text \<open>
  A processor that throws is not treated as one that returns \<open>false\<close>. With the
  processors \<open>[throws, returns true]\<close> the second is never called, the item is retried
  and \<open>processNext\<close> returns \<open>false\<close>; with \<open>[returns false, returns true]\<close> on the
  same queue the second is called, the item is completed and \<open>processNext\<close> returns
  \<open>true\<close>.
\<close>

theorem processNext_throw_counterexample:
  "processNext thrower_queue
     = (False, 1,
        thrower_queue\<lparr>items := [(''a'', example_item ''a'' ''low'' 100 1 0),
                                (''b'', example_item ''b'' ''high'' 100 10 1),
                                (''c'', example_item ''c'' ''medium'' 101 5 0),
                                (''d'', example_item ''d'' ''high too'' 102 10 0)]\<rparr>)
   \<and> processNext refuser_queue
     = (True, 2,
        refuser_queue\<lparr>items := [(''a'', example_item ''a'' ''low'' 100 1 0),
                                (''c'', example_item ''c'' ''medium'' 101 5 0),
                                (''d'', example_item ''d'' ''high too'' 102 10 0)]\<rparr>)"
  by (simp add: thrower_queue_def refuser_queue_def registerProcessor_def processNext_def
      example_defs queue_defs Let_def)

subsection \<open>Order of dequeue with priorities\<close>

lemma compare_le_key:
  assumes "priority a \<noteq> NaN" and "priority b \<noteq> NaN"
    and "addedAt a \<noteq> Invalid_Date" and "addedAt b \<noteq> Invalid_Date"
  shows "positive (SortCompare higher_priority_then_older a b)
         \<longleftrightarrow> \<not> dequeue_key a \<le> dequeue_key b"
  using assms
  by (cases "priority a"; cases "priority b"; cases "addedAt a"; cases "addedAt b")
     (auto simp: higher_priority_then_older_def dequeue_key_def less_eq_prod_def
        SortCompare_def positive_def strict_neq_def priority_key_def time_value_def
        getTime_def)

lemma insert_sorted_insort_key:
  assumes "\<forall>y \<in> set (x # ys). priority y \<noteq> NaN \<and> addedAt y \<noteq> Invalid_Date"
  shows "insert_sorted higher_priority_then_older x ys = insort_key dequeue_key x ys"
  using assms by (induction ys) (simp_all add: compare_le_key)

lemma js_sort_sort_key:
  assumes "\<forall>y \<in> set xs. priority y \<noteq> NaN \<and> addedAt y \<noteq> Invalid_Date"
  shows "js_sort higher_priority_then_older xs = sort_key dequeue_key xs"
  using assms
proof (induction xs)
  case Nil
  show ?case by (simp add: js_sort_def)
next
  case (Cons x xs)
  then have "js_sort higher_priority_then_older xs = sort_key dequeue_key xs" by simp
  moreover from Cons.prems
  have "\<forall>y \<in> set (x # sort_key dequeue_key xs). priority y \<noteq> NaN \<and> addedAt y \<noteq> Invalid_Date"
    by simp
  ultimately show ?case by (simp add: js_sort_Cons insert_sorted_insort_key)
qed

lemma sort_key_Nil_iff: "sort_key f xs = [] \<longleftrightarrow> xs = []"
  by (metis length_sort list.size(3) length_0_conv)

lemma sort_key_remove_hd:
  "xs \<noteq> [] \<Longrightarrow> sort_key f (remove1 (hd (sort_key f xs)) xs) = tl (sort_key f xs)"
proof (induction xs)
  case Nil
  then show ?case by simp
next
  case (Cons a xs)
  show ?case
  proof (cases "xs = []")
    case True
    then show ?thesis by simp
  next
    case False
    then obtain y ys where S: "sort_key f xs = y # ys"
      by (cases "sort_key f xs") (simp_all add: sort_key_Nil_iff)
    show ?thesis
    proof (cases "f a \<le> f y")
      case True
      with S show ?thesis by simp
    next
      case nle: False
      then have "a \<noteq> y" by auto
      from Cons.IH [OF False] S have "sort_key f (remove1 y xs) = ys" by simp
      with S nle \<open>a \<noteq> y\<close> show ?thesis by simp
    qed
  qed
qed

lemma filter_other_ids:
  "distinct (map item_id xs) \<Longrightarrow> x \<in> set xs \<Longrightarrow>
   filter (\<lambda>y. item_id y \<noteq> item_id x) xs = remove1 x xs"
proof (induction xs)
  case Nil
  then show ?case by simp
next
  case (Cons a xs)
  show ?case
  proof (cases "a = x")
    case True
    with Cons.prems have "item_id x \<notin> item_id ` set xs" by simp
    then have "\<forall>y \<in> set xs. item_id y \<noteq> item_id x" by (metis imageI)
    with True show ?thesis by (simp add: filter_id_conv)
  next
    case False
    with Cons.prems have "x \<in> set xs" and "item_id a \<notin> item_id ` set xs" by simp_all
    then have "item_id a \<noteq> item_id x" by (metis imageI)
    with False Cons show ?thesis by simp
  qed
qed

lemma availableItems_after_dequeue:
  assumes "distinct (map item_id (map_values (items q)))" and "x \<in> set (availableItems q)"
  shows "availableItems (q\<lparr>processing := set_add (item_id x) (processing q)\<rparr>)
         = remove1 x (availableItems q)"
proof -
  have "availableItems (q\<lparr>processing := set_add (item_id x) (processing q)\<rparr>)
        = filter (\<lambda>y. item_id y \<noteq> item_id x) (availableItems q)"
    by (auto simp: availableItems_def intro: filter_cong)
  moreover from assms(1) have "distinct (map item_id (availableItems q))"
    by (simp add: availableItems_def distinct_map_filter)
  ultimately show ?thesis using assms(2) by (simp add: filter_other_ids)
qed

lemma dequeueMany_loop_sorted:
  assumes "priorityEnabled (options q)" and "distinct (map item_id (map_values (items q)))"
    and "\<forall>y \<in> set (map_values (items q)). priority y \<noteq> NaN \<and> addedAt y \<noteq> Invalid_Date"
  shows "fst (dequeueMany_loop n results q)
         = results @ take n (sort_key dequeue_key (availableItems q))"
  using assms
proof (induction n arbitrary: results q)
  case 0
  then show ?case by simp
next
  case (Suc n)
  show ?case
  proof (cases "availableItems q = []")
    case True
    then show ?thesis by (simp add: dequeue_eq)
  next
    case False
    let ?S = "sort_key dequeue_key (availableItems q)"
    let ?q' = "q\<lparr>processing := set_add (item_id (next_item q)) (processing q)\<rparr>"
    from Suc.prems(3)
    have "\<forall>y \<in> set (availableItems q). priority y \<noteq> NaN \<and> addedAt y \<noteq> Invalid_Date"
      by (simp add: availableItems_def)
    with Suc.prems(1) have nx: "next_item q = hd ?S"
      by (simp add: next_item_def js_sort_sort_key)
    from False have S: "?S \<noteq> []" by (simp add: sort_key_Nil_iff)
    from next_item_available [OF False] Suc.prems(2)
    have "availableItems ?q' = remove1 (hd ?S) (availableItems q)"
      by (simp add: availableItems_after_dequeue nx)
    then have av: "sort_key dequeue_key (availableItems ?q') = tl ?S"
      using sort_key_remove_hd [OF False, of dequeue_key] by simp
    from Suc.prems have "fst (dequeueMany_loop n (results @ [next_item q]) ?q')
          = (results @ [next_item q]) @ take n (sort_key dequeue_key (availableItems ?q'))"
      by (intro Suc.IH) simp_all
    with av nx S False show ?thesis
      by (cases ?S) (simp_all add: dequeue_eq)
  qed
qed

lemma enqueue_calls_items:
  assumes "enqueue_calls cs q0 = Inr q" and "priorityEnabled (options q0)"
    and "distinct (map call_uuid cs)" and "set (map call_uuid cs) \<inter> fst ` set (items q0) = {}"
  shows "items q = items q0 @ map (\<lambda>c. (call_uuid c, prioritised_item c)) cs
         \<and> processing q = processing q0 \<and> options q = options q0"
  using assms
proof (induction cs arbitrary: q0)
  case Nil
  then show ?case by simp
next
  case (Cons c cs)
  let ?q1 = "q0\<lparr>items := items q0 @ [(call_uuid c, prioritised_item c)]\<rparr>"
  from Cons.prems(4) have fresh: "call_uuid c \<notin> fst ` set (items q0)" by auto
  from Cons.prems(1) have
    e: "enqueue (call_uuid c) (call_now c) (call_data c) (call_priority c) q0
        = Inr (call_uuid c, ?q1)"
    using fresh Cons.prems(2)
    by (auto simp: enqueue_def Let_def prioritised_item_def map_set_fresh split: if_splits)
  with Cons.prems(1) have "enqueue_calls cs ?q1 = Inr q" by simp
  moreover from Cons.prems have "priorityEnabled (options ?q1)" "distinct (map call_uuid cs)"
    "set (map call_uuid cs) \<inter> fst ` set (items ?q1) = {}"
    by auto
  ultimately have "items q = items ?q1 @ map (\<lambda>c. (call_uuid c, prioritised_item c)) cs
         \<and> processing q = processing ?q1 \<and> options q = options ?q1"
    by (rule Cons.IH)
  then show ?case by simp
qed

lemma insort_key_older:
  "\<forall>y \<in> set ys. t x \<le> t y \<Longrightarrow>
   insort_key (\<lambda>x. (k x, t x)) x ys = insort_key k x ys"
  for k :: "'b \<Rightarrow> 'k :: linorder" and t :: "'b \<Rightarrow> int"
  by (induction ys) (auto simp: less_eq_prod_def)

lemma sort_key_by_age_is_stable:
  "sorted (map t xs) \<Longrightarrow> sort_key (\<lambda>x. (k x, t x)) xs = sort_key k xs"
  for k :: "'b \<Rightarrow> 'k :: linorder" and t :: "'b \<Rightarrow> int"
proof (induction xs)
  case Nil
  then show ?case by simp
next
  case (Cons a xs)
  then have "\<forall>y \<in> set (sort_key k xs). t a \<le> t y" by simp
  with Cons show ?case by (simp add: insort_key_older)
qed

lemma key_order:
  assumes "dequeue_key a \<le> dequeue_key b"
    and "priority a \<noteq> NaN" and "priority b \<noteq> NaN"
    and "addedAt a \<noteq> Invalid_Date" and "addedAt b \<noteq> Invalid_Date"
  shows "greater_than (priority a) (priority b)
         \<or> (priority a = priority b
            \<and> \<not> greater_than (getTime (addedAt a)) (getTime (addedAt b)))"
  using assms
  by (cases "priority a"; cases "priority b"; cases "addedAt a"; cases "addedAt b")
     (auto simp: dequeue_key_def less_eq_prod_def priority_key_def time_value_def getTime_def)

lemma sorted_by_key_order:
  assumes "sorted (map dequeue_key xs)"
    and "\<forall>y \<in> set xs. priority y \<noteq> NaN \<and> addedAt y \<noteq> Invalid_Date"
  shows "sorted_wrt (\<lambda>a b. greater_than (priority a) (priority b)
                       \<or> (priority a = priority b
                          \<and> \<not> greater_than (getTime (addedAt a)) (getTime (addedAt b)))) xs"
proof -
  have "sorted_wrt (\<lambda>a b. dequeue_key a \<le> dequeue_key b) xs"
    using assms(1) by (simp add: sorted_map)
  then show ?thesis
  proof (rule sorted_wrt_mono_rel [rotated])
    fix a b
    assume "a \<in> set xs" "b \<in> set xs" "dequeue_key a \<le> dequeue_key b"
    with assms(2) show "greater_than (priority a) (priority b)
          \<or> (priority a = priority b
             \<and> \<not> greater_than (getTime (addedAt a)) (getTime (addedAt b)))"
      using key_order [of a b] by blast
  qed
qed

lemma sorted_wrt_take: "sorted_wrt P xs \<Longrightarrow> sorted_wrt P (take n xs)"
  by (metis append_take_drop_id sorted_wrt_append)

lemma dequeue_None_iff:
  "fst (dequeue q) = None
   \<longleftrightarrow> items q = [] \<or> (\<forall>item \<in> set (map_values (items q)). set_has (processing q) (item_id item))"
proof -
  have "availableItems q = []
        \<longleftrightarrow> (\<forall>item \<in> set (map_values (items q)). set_has (processing q) (item_id item))"
    by (auto simp: availableItems_def filter_empty_conv)
  moreover have "items q = [] \<Longrightarrow> availableItems q = []" by (rule availableItems_Nil)
  ultimately show ?thesis by (auto simp: dequeue_eq)
qed

text \<open>
  C1, as the code has it. On a queue built with \<open>priorityEnabled: true\<close>, after any
  sequence of \<open>enqueue\<close> calls that all succeeded, with fresh identifiers and no
  priority \<open>NaN\<close>, successive \<open>dequeue()\<close> calls hand out the items in the order of
  the stable sort by descending priority and then by ascending \<open>addedAt\<close>: each item
  handed out is followed only by items of lower priority, or of the same priority and no
  earlier \<open>addedAt\<close>, whatever the order of the calls was. When the clock did not run
  backwards between the calls this is the stable sort by descending priority alone:
  items of equal priority come out in the order they were enqueued. And in any state
  \<open>dequeue()\<close> returns \<open>null\<close> exactly when the map is empty or every item in it is
  in flight.
\<close>

theorem dequeue_by_priority_then_addedAt:
  assumes "enqueue_calls calls (Queue (Some opts)) = Inr q"
    and "opt_priorityEnabled opts = Some True"
    and "distinct (map call_uuid calls)"
    and "\<forall>c \<in> set calls. call_priority c \<noteq> Some NaN"
  shows "fst (dequeueMany count q)
           = take (nat count) (sort_key dequeue_key (map prioritised_item calls))
         \<and> sorted_wrt (\<lambda>a b. greater_than (priority a) (priority b)
                           \<or> (priority a = priority b
                              \<and> \<not> greater_than (getTime (addedAt a)) (getTime (addedAt b))))
             (fst (dequeueMany count q))
         \<and> (sorted (map call_now calls) \<longrightarrow>
              fst (dequeueMany count q)
                = take (nat count)
                    (sort_key (\<lambda>item. priority_key (priority item)) (map prioritised_item calls)))
         \<and> (fst (dequeue q') = None
              \<longleftrightarrow> items q' = []
                  \<or> (\<forall>item \<in> set (map_values (items q')).
                        set_has (processing q') (item_id item)))"
proof -
  let ?q0 = "Queue (Some opts) :: 'a queue"
  let ?items = "map prioritised_item calls"
  from assms(2) have p0: "priorityEnabled (options ?q0)"
    by (simp add: Queue_def or_boolean_def)
  have "set (map call_uuid calls) \<inter> fst ` set (items ?q0) = {}"
    by (simp add: Queue_def Let_def)
  from enqueue_calls_items [OF assms(1) p0 assms(3) this]
  have q: "items q = map (\<lambda>c. (call_uuid c, prioritised_item c)) calls"
      "processing q = []" "options q = options ?q0"
    by (simp_all add: Queue_def Let_def)
  from q have av: "availableItems q = ?items"
    by (simp add: availableItems_def map_values_def comp_def)
  from q have vs: "map_values (items q) = ?items"
    by (simp add: map_values_def comp_def)
  from q assms(3) have d: "distinct (map item_id (map_values (items q)))"
    by (simp add: map_values_def comp_def prioritised_item_def)
  have ok: "\<forall>y \<in> set ?items. priority y \<noteq> NaN \<and> addedAt y \<noteq> Invalid_Date"
    using assms(4) by (auto simp: prioritised_item_def split: option.splits)
  from q p0 have "priorityEnabled (options q)" by simp
  from dequeueMany_loop_sorted [OF this d, of "nat count" "[]"] av vs ok
  have 1: "fst (dequeueMany count q) = take (nat count) (sort_key dequeue_key ?items)"
    by (simp add: dequeueMany_def)
  have "sorted (map dequeue_key (sort_key dequeue_key ?items))" by simp
  moreover from ok
  have "\<forall>y \<in> set (sort_key dequeue_key ?items). priority y \<noteq> NaN \<and> addedAt y \<noteq> Invalid_Date"
    by simp
  ultimately
  have 2: "sorted_wrt (\<lambda>a b. greater_than (priority a) (priority b)
                           \<or> (priority a = priority b
                              \<and> \<not> greater_than (getTime (addedAt a)) (getTime (addedAt b))))
             (fst (dequeueMany count q))"
    unfolding 1 by (intro sorted_wrt_take sorted_by_key_order)
  have 3: "fst (dequeueMany count q)
             = take (nat count) (sort_key (\<lambda>item. priority_key (priority item)) ?items)"
    if "sorted (map call_now calls)"
  proof -
    from that have "sorted (map (\<lambda>item. time_value (addedAt item)) ?items)"
      by (simp add: comp_def prioritised_item_def time_value_def)
    then have "sort_key dequeue_key ?items
               = sort_key (\<lambda>item. priority_key (priority item)) ?items"
      using sort_key_by_age_is_stable
        [of "\<lambda>item. time_value (addedAt item)" ?items "\<lambda>item. priority_key (priority item)"]
      by (simp add: dequeue_key_def [abs_def])
    with 1 show ?thesis by simp
  qed
  from 1 2 3 dequeue_None_iff [of q'] show ?thesis by simp
qed

theorem dequeue_by_priority_witness:
  "enqueue_calls example_calls (Queue (Some example_options)) = Inr loaded_queue
   \<and> opt_priorityEnabled example_options = Some True
   \<and> distinct (map call_uuid example_calls)
   \<and> Some NaN \<notin> set (map call_priority example_calls)
   \<and> sorted (map call_now example_calls)
   \<and> map item_id (fst (dequeueMany 3 loaded_queue)) = [''b'', ''d'', ''c'']
   \<and> map item_id (fst (dequeueMany 9 loaded_queue)) = [''b'', ''d'', ''c'', ''a'']
   \<and> fst (dequeue (loaded_queue\<lparr>processing := [''a'', ''b'', ''c'', ''d'']\<rparr>)) = None
   \<and> enqueue_calls late_calls (Queue (Some example_options)) = Inr late_queue
   \<and> distinct (map call_uuid late_calls)
   \<and> Some NaN \<notin> set (map call_priority late_calls)
   \<and> \<not> sorted (map call_now late_calls)
   \<and> map item_id (fst (dequeueMany 4 late_queue)) = [''z'', ''y'', ''x'', ''w'']"
proof -
  have h1: "enqueue_calls example_calls (Queue (Some example_options)) = Inr loaded_queue"
    by (rule loaded_queue_reached)
  have h2: "opt_priorityEnabled example_options = Some True"
    by (simp add: example_defs)
  have h3: "distinct (map call_uuid example_calls)"
    by (simp add: example_defs)
  have n4: "Some NaN \<notin> set (map call_priority example_calls)"
    by (simp add: example_defs)
  then have h4: "\<forall>c \<in> set example_calls. call_priority c \<noteq> Some NaN"
    by (metis image_eqI set_map)
  have h5: "sorted (map call_now example_calls)"
    by (simp add: example_defs)
  have l1: "enqueue_calls late_calls (Queue (Some example_options)) = Inr late_queue"
    by (rule late_queue_reached)
  have l3: "distinct (map call_uuid late_calls)" "\<not> sorted (map call_now late_calls)"
    by (simp_all add: late_calls_def)
  have m4: "Some NaN \<notin> set (map call_priority late_calls)"
    by (simp add: late_calls_def)
  then have l4: "\<forall>c \<in> set late_calls. call_priority c \<noteq> Some NaN"
    by (metis image_eqI set_map)
  note t = dequeue_by_priority_then_addedAt [OF h1 h2 h3 h4]
  note u = dequeue_by_priority_then_addedAt [OF l1 h2 l3(1) l4]
  have k: "priority_key (Finite r) = (1, - r)" "priority_key PosInfinity = (0, 0)" for r
    by (simp_all add: priority_key_def)
  from t [of 3 loaded_queue, THEN conjunct2, THEN conjunct2, THEN conjunct1, THEN mp, OF h5]
  have c3: "map item_id (fst (dequeueMany 3 loaded_queue)) = [''b'', ''d'', ''c'']"
    by (simp add: example_defs prioritised_item_def k less_eq_prod_def)
  from t [of 9 loaded_queue, THEN conjunct1]
  have c9: "map item_id (fst (dequeueMany 9 loaded_queue)) = [''b'', ''d'', ''c'', ''a'']"
    by (simp add: example_defs prioritised_item_def dequeue_key_def time_value_def k
        less_eq_prod_def)
  from t [of 0 "loaded_queue\<lparr>processing := [''a'', ''b'', ''c'', ''d'']\<rparr>",
          THEN conjunct2, THEN conjunct2, THEN conjunct2]
  have e: "fst (dequeue (loaded_queue\<lparr>processing := [''a'', ''b'', ''c'', ''d'']\<rparr>)) = None"
    by (simp add: example_defs map_values_def set_has_def)
  from u [of 4 late_queue, THEN conjunct1]
  have c4: "map item_id (fst (dequeueMany 4 late_queue)) = [''z'', ''y'', ''x'', ''w'']"
    by (simp add: late_calls_def prioritised_item_def dequeue_key_def time_value_def k
        less_eq_prod_def)
  from h1 h2 h3 n4 h5 c3 c9 e l1 l3 m4 c4 show ?thesis by simp
qed

text \<open>
  With a priority \<open>NaN\<close> the order is lost. After \<open>enqueue\<close> with the priorities 1,
  \<open>NaN\<close> and 5, in this order, the comparator returns \<open>NaN\<close> for the first and the
  second item and for the second and the third, the sort moves nothing, and
  \<open>dequeue()\<close> hands out the item of priority 1 while the item of priority 5 waits.
\<close>

theorem dequeue_NaN_counterexample:
  "enqueue_calls nan_calls (Queue (Some example_options)) = Inr nan_queue
   \<and> higher_priority_then_older (prioritised_item (nan_calls ! 0)) (prioritised_item (nan_calls ! 1))
       = NaN
   \<and> higher_priority_then_older (prioritised_item (nan_calls ! 1)) (prioritised_item (nan_calls ! 2))
       = NaN
   \<and> map (\<lambda>item. (item_id item, priority item)) (fst (dequeueMany 3 nan_queue))
       = [(''a'', Finite 1), (''b'', NaN), (''c'', Finite 5)]
   \<and> greater_than (Finite 5) (Finite 1)"
  by (simp add: nan_calls_def nan_queue_def example_options_def queue_defs dequeueMany_def
      prioritised_item_def Let_def eval_nat_numeral)

section \<open>Properties of persistence\<close>

subsection \<open>ISO dates are read back\<close>

lemma century_of_bounds: "0 \<le> doe \<Longrightarrow> 0 \<le> century_of doe \<and> century_of doe \<le> 3"
  by (auto simp: century_of_def)

lemma day_of_century_bounds:
  "0 \<le> doe \<Longrightarrow> doe \<le> 146096 \<Longrightarrow> 0 \<le> day_of_century doe \<and> day_of_century doe \<le> 36524"
  by (auto simp: day_of_century_def century_of_def min_def)

lemma cycle_of_bounds:
  "0 \<le> doe \<Longrightarrow> doe \<le> 146096 \<Longrightarrow> 0 \<le> cycle_of doe \<and> cycle_of doe \<le> 24"
  using day_of_century_bounds [of doe] by (auto simp: cycle_of_def)

lemma day_of_cycle_bounds:
  assumes "0 \<le> doe" and "doe \<le> 146096"
  shows "0 \<le> day_of_cycle doe \<and> day_of_cycle doe \<le> 1460"
proof -
  define doc where "doc = day_of_century doe"
  have "0 \<le> doc" "doc \<le> 36524"
    using day_of_century_bounds [OF assms] by (simp_all add: doc_def)
  then have "0 \<le> doc - 1461 * min 24 (doc div 1461) \<and> doc - 1461 * min 24 (doc div 1461) \<le> 1460"
    by (auto simp: min_def)
  then show ?thesis by (simp add: day_of_cycle_def cycle_of_def doc_def)
qed

lemma year_of_cycle_bounds:
  "0 \<le> doe \<Longrightarrow> doe \<le> 146096 \<Longrightarrow> 0 \<le> year_of_cycle doe \<and> year_of_cycle doe \<le> 3"
  using day_of_cycle_bounds [of doe] by (auto simp: year_of_cycle_def)

lemma day_of_year_bounds:
  assumes "0 \<le> doe" and "doe \<le> 146096"
  shows "0 \<le> day_of_year doe \<and> day_of_year doe \<le> 365"
proof -
  define doq where "doq = day_of_cycle doe"
  have "0 \<le> doq" "doq \<le> 1460"
    using day_of_cycle_bounds [OF assms] by (simp_all add: doq_def)
  then have "0 \<le> doq - 365 * min 3 (doq div 365) \<and> doq - 365 * min 3 (doq div 365) \<le> 365"
    by (auto simp: min_def)
  then show ?thesis by (simp add: day_of_year_def year_of_cycle_def doq_def)
qed

lemma year_of_era_bounds:
  assumes "0 \<le> doe" and "doe \<le> 146096"
  shows "0 \<le> year_of_era doe \<and> year_of_era doe \<le> 399"
  using century_of_bounds [of doe] cycle_of_bounds [of doe] year_of_cycle_bounds [of doe] assms
  by (simp add: year_of_era_def)

lemma year_and_day_of_era:
  assumes "0 \<le> doe" and "doe \<le> 146096"
  shows "year_of_era doe * 365 + year_of_era doe div 4 - year_of_era doe div 100
         + day_of_year doe = doe"
proof -
  define c where "c = century_of doe"
  define q where "q = cycle_of doe"
  define yq where "yq = year_of_cycle doe"
  have b: "0 \<le> q" "q \<le> 24" "0 \<le> yq" "yq \<le> 3"
    using cycle_of_bounds [OF assms] year_of_cycle_bounds [OF assms] by (simp_all add: q_def yq_def)
  have y4: "(100 * c + 4 * q + yq) div 4 = 25 * c + q" using b by simp
  have y100: "(100 * c + 4 * q + yq) div 100 = c" using b by simp
  have y: "year_of_era doe = 100 * c + 4 * q + yq"
    by (simp add: year_of_era_def c_def q_def yq_def)
  have d: "day_of_year doe = doe - 36524 * c - 1461 * q - 365 * yq"
    by (simp add: day_of_year_def day_of_cycle_def day_of_century_def c_def q_def yq_def)
  show ?thesis unfolding y d y4 y100 by simp
qed

lemma month_index_bounds:
  "0 \<le> doy \<Longrightarrow> doy \<le> 365 \<Longrightarrow> 0 \<le> month_index doy \<and> month_index doy \<le> 11"
  by (auto simp: month_index_def)

lemma day_of_month_bounds:
  "1 \<le> doy - (153 * month_index doy + 2) div 5 + 1
   \<and> doy - (153 * month_index doy + 2) div 5 + 1 \<le> 31"
proof -
  define mp where "mp = month_index doy"
  have M: "153 * mp \<le> 5 * doy + 2" "5 * doy + 2 < 153 * mp + 153"
    unfolding mp_def month_index_def by linarith+
  have F: "5 * ((153 * mp + 2) div 5) \<le> 153 * mp + 2"
    "153 * mp + 2 < 5 * ((153 * mp + 2) div 5) + 5"
    by linarith+
  from M F show ?thesis unfolding mp_def [symmetric] by linarith
qed

lemma civil_roundtrip:
  assumes "days_to_civil z = (y, m, d)"
  shows "civil_to_days y m d = z \<and> 1 \<le> m \<and> m \<le> 12 \<and> 1 \<le> d \<and> d \<le> 31
         \<and> 400 * ((z + 719468) div 146097) \<le> y
         \<and> y \<le> 400 * ((z + 719468) div 146097) + 400"
proof -
  define era where "era = (z + 719468) div 146097"
  define doe where "doe = (z + 719468) mod 146097"
  define doy where "doy = day_of_year doe"
  define mp where "mp = month_index doy"
  define yoe where "yoe = year_of_era doe"
  have doe: "0 \<le> doe" "doe \<le> 146096" by (simp_all add: doe_def)
  have doy: "0 \<le> doy" "doy \<le> 365" using day_of_year_bounds [OF doe] by (simp_all add: doy_def)
  have yoe: "0 \<le> yoe" "yoe \<le> 399" using year_of_era_bounds [OF doe] by (simp_all add: yoe_def)
  have mp: "0 \<le> mp" "mp \<le> 11" using month_index_bounds [OF doy] by (simp_all add: mp_def)
  have ymd: "y = yoe + era * 400 + (if m \<le> 2 then 1 else 0)"
    "m = (if mp < 10 then mp + 3 else mp - 9)" "d = doy - (153 * mp + 2) div 5 + 1"
    using assms
    by (auto simp: days_to_civil_def Let_def era_def doe_def doy_def mp_def yoe_def)
  have m: "1 \<le> m" "m \<le> 12" using mp ymd(2) by auto
  have d: "1 \<le> d" "d \<le> 31" using day_of_month_bounds [of doy] by (simp_all add: ymd(3) mp_def)
  have yb: "400 * era \<le> y" "y \<le> 400 * era + 400" using yoe ymd(1) by auto
  have y': "(if m \<le> 2 then y - 1 else y) = yoe + era * 400" using ymd(1) by auto
  have m': "(if m > 2 then m - 3 else m + 9) = mp" using mp ymd(2) by auto
  have e: "(yoe + era * 400) div 400 = era" "(yoe + era * 400) mod 400 = yoe"
    "yoe mod 400 = yoe" "yoe div 400 = 0"
    using yoe by (simp_all add: div_pos_pos_trivial)
  have "yoe * 365 + yoe div 4 - yoe div 100 + doy = doe"
    using year_and_day_of_era [OF doe] by (simp add: yoe_def doy_def)
  moreover have "era * 146097 + doe = z + 719468" by (simp add: era_def doe_def)
  ultimately have "civil_to_days y m d = z"
    by (simp add: civil_to_days_def Let_def y' m' e ymd(3))
  with m d yb show ?thesis by (simp add: era_def)
qed

lemma digit_roundtrip: "0 \<le> k \<Longrightarrow> k \<le> 9 \<Longrightarrow> digit_value (digit_char k) = Some k"
proof -
  assume "0 \<le> k" "k \<le> 9"
  then have "k \<in> {0, 1, 2, 3, 4, 5, 6, 7, 8, 9}" by simp presburger
  then show ?thesis
    by (elim insertE emptyE) (simp_all add: digit_value_def digit_char_def)
qed

lemma length_pad [simp]: "length (pad w n) = w"
  by (induction w arbitrary: n) simp_all

lemma number_of_digits_append:
  "number_of_digits (xs @ ys) a
   = (case number_of_digits xs a of None \<Rightarrow> None | Some b \<Rightarrow> number_of_digits ys b)"
  by (induction xs arbitrary: a) (simp_all split: option.splits)

lemma number_of_digits_pad:
  "0 \<le> n \<Longrightarrow> n < 10 ^ w \<Longrightarrow> number_of_digits (pad w n) a = Some (a * 10 ^ w + n)"
proof (induction w arbitrary: n a)
  case 0
  then show ?case by simp
next
  case (Suc w)
  from Suc.prems have "0 \<le> n div 10" "n div 10 < 10 ^ w" by auto
  then have "number_of_digits (pad w (n div 10)) a = Some (a * 10 ^ w + n div 10)"
    by (rule Suc.IH)
  moreover have "digit_value (digit_char (n mod 10)) = Some (n mod 10)"
    by (rule digit_roundtrip) simp_all
  ultimately show ?case
    by (simp add: number_of_digits_append algebra_simps)
qed

lemma time_of_day:
  fixes ms :: int
  assumes "0 \<le> ms" and "ms < 86400000"
  shows "0 \<le> ms div 3600000 \<and> ms div 3600000 \<le> 23
         \<and> ms div 3600000 * 3600000 + ms div 60000 mod 60 * 60000
            + ms div 1000 mod 60 * 1000 + ms mod 1000 = ms"
proof -
  have a: "ms div 60000 = ms div 1000 div 60"
    using zdiv_zmult2_eq [of 60 ms 1000] by simp
  have b: "ms div 3600000 = ms div 1000 div 60 div 60"
    using zdiv_zmult2_eq [of 60 "ms div 1000" 60] zdiv_zmult2_eq [of 3600 ms 1000] by simp
  define s where "s = ms div 1000"
  define mi where "mi = s div 60"
  have 1: "ms = 1000 * s + ms mod 1000" by (simp add: s_def)
  have 2: "s = 60 * mi + s mod 60" by (simp add: mi_def)
  have 3: "mi = 60 * (mi div 60) + mi mod 60" by simp
  have r: "0 \<le> ms mod 1000" "0 \<le> s mod 60" "0 \<le> mi mod 60" "mi mod 60 < 60" by simp_all
  have h: "0 \<le> mi div 60" "mi div 60 \<le> 23"
    using assms 1 2 3 r by linarith+
  show ?thesis
    unfolding a b s_def [symmetric] mi_def [symmetric] using h 1 2 3 by linarith
qed

lemma two_chars: "length a = 2 \<Longrightarrow> \<exists>a1 a2. a = [a1, a2]"
  by (cases a; cases "tl a") auto

lemma three_chars: "length a = 3 \<Longrightarrow> \<exists>a1 a2 a3. a = [a1, a2, a3]"
  by (cases a; cases "tl a"; cases "tl (tl a)") auto

lemma iso_layout:
  fixes a b c d e f :: string and x0 x1 x2 x3 x4 x5 x6 :: char
  assumes "length a = 2" "length b = 2" "length c = 2" "length d = 2" "length e = 2"
    and "length f = 3"
  defines "rest \<equiv> [x0] @ a @ [x1] @ b @ [x2] @ c @ [x3] @ d @ [x4] @ e @ [x5] @ f @ [x6]"
  shows "length rest = 20" "rest ! 0 = x0" "rest ! 3 = x1" "rest ! 6 = x2" "rest ! 9 = x3"
    "rest ! 12 = x4" "rest ! 15 = x5" "rest ! 19 = x6"
    "take 2 (drop 1 rest) = a" "take 2 (drop 4 rest) = b" "take 2 (drop 7 rest) = c"
    "take 2 (drop 10 rest) = d" "take 2 (drop 13 rest) = e" "take 3 (drop 16 rest) = f"
proof -
  obtain a1 a2 b1 b2 c1 c2 d1 d2 e1 e2 f1 f2 f3
    where "a = [a1, a2]" "b = [b1, b2]" "c = [c1, c2]" "d = [d1, d2]" "e = [e1, e2]"
      "f = [f1, f2, f3]"
    using assms(1-6) two_chars three_chars by metis
  then have r: "rest = [x0, a1, a2, x1, b1, b2, x2, c1, c2, x3, d1, d2, x4, e1, e2, x5,
                        f1, f2, f3, x6]"
    by (simp add: rest_def)
  show "length rest = 20" "rest ! 0 = x0" "rest ! 3 = x1" "rest ! 6 = x2" "rest ! 9 = x3"
    "rest ! 12 = x4" "rest ! 15 = x5" "rest ! 19 = x6"
    "take 2 (drop 1 rest) = a" "take 2 (drop 4 rest) = b" "take 2 (drop 7 rest) = c"
    "take 2 (drop 10 rest) = d" "take 2 (drop 13 rest) = e" "take 3 (drop 16 rest) = f"
    unfolding r \<open>a = _\<close> \<open>b = _\<close> \<open>c = _\<close> \<open>d = _\<close> \<open>e = _\<close> \<open>f = _\<close>
    by simp_all
qed

lemma time_fields_iso_time:
  assumes "0 \<le> m" "m < 100" "0 \<le> d" "d < 100" "0 \<le> ms" "ms < 86400000"
  shows "time_fields (iso_time m d ms)
         = Some (m, d, ms div 3600000, ms div 60000 mod 60, ms div 1000 mod 60, ms mod 1000)"
proof -
  have n: "number_of_digits (pad 2 m) 0 = Some m" "number_of_digits (pad 2 d) 0 = Some d"
    "number_of_digits (pad 2 (ms div 3600000)) 0 = Some (ms div 3600000)"
    "number_of_digits (pad 2 (ms div 60000 mod 60)) 0 = Some (ms div 60000 mod 60)"
    "number_of_digits (pad 2 (ms div 1000 mod 60)) 0 = Some (ms div 1000 mod 60)"
    "number_of_digits (pad 3 (ms mod 1000)) 0 = Some (ms mod 1000)"
    using assms time_of_day [OF assms(5,6)]
    by (simp_all add: number_of_digits_pad)
  have i: "iso_time m d ms
           = [CHR ''-''] @ pad 2 m @ [CHR ''-''] @ pad 2 d @ [CHR ''T'']
             @ pad 2 (ms div 3600000) @ [CHR '':''] @ pad 2 (ms div 60000 mod 60) @ [CHR '':'']
             @ pad 2 (ms div 1000 mod 60) @ [CHR ''.''] @ pad 3 (ms mod 1000) @ [CHR ''Z'']"
    by (simp add: iso_time_def)
  note l = iso_layout [of "pad 2 m" "pad 2 d" "pad 2 (ms div 3600000)"
      "pad 2 (ms div 60000 mod 60)" "pad 2 (ms div 1000 mod 60)" "pad 3 (ms mod 1000)"
      "CHR ''-''" "CHR ''-''" "CHR ''T''" "CHR '':''" "CHR '':''" "CHR ''.''" "CHR ''Z''",
      OF length_pad length_pad length_pad length_pad length_pad length_pad]
  show ?thesis unfolding time_fields_def i l n by simp
qed

lemma TimeClip_of_int:
  assumes "\<bar>t\<bar> \<le> 8640000000000000"
  shows "TimeClip (of_int t) = Date_at t"
proof -
  from assms have "\<bar>real_of_int t\<bar> \<le> 8640000000000000" by linarith
  then show ?thesis by (simp add: TimeClip_def)
qed

lemma date_of_fields_time:
  assumes "1 \<le> m" "m \<le> 12" "1 \<le> d" "d \<le> 31" "0 \<le> ms" "ms < 86400000"
    and "\<bar>civil_to_days y m d * 86400000 + ms\<bar> \<le> 8640000000000000"
  shows "date_of_fields y
           (m, d, ms div 3600000, ms div 60000 mod 60, ms div 1000 mod 60, ms mod 1000)
         = Date_at (civil_to_days y m d * 86400000 + ms)"
proof -
  have t: "ms div 3600000 \<le> 23"
    "ms div 3600000 * 3600000 + ms div 60000 mod 60 * 60000
            + ms div 1000 mod 60 * 1000 + ms mod 1000 = ms"
    using time_of_day [OF assms(5,6)] by simp_all
  have r: "ms div 60000 mod 60 \<le> 59" "ms div 1000 mod 60 \<le> 59"
    using pos_mod_bound [of 60 "ms div 60000"] pos_mod_bound [of 60 "ms div 1000"] by simp_all
  have whole: "civil_to_days y m d * 86400000 + ms div 3600000 * 3600000
          + ms div 60000 mod 60 * 60000 + ms div 1000 mod 60 * 1000 + ms mod 1000
        = civil_to_days y m d * 86400000 + ms"
    using t(2) by linarith
  have inside: "1 \<le> m \<and> m \<le> 12 \<and> 1 \<le> d \<and> d \<le> 31
      \<and> (ms div 3600000 \<le> 23 \<and> ms div 60000 mod 60 \<le> 59 \<and> ms div 1000 mod 60 \<le> 59
         \<or> ms div 3600000 = 24 \<and> ms div 60000 mod 60 = 0 \<and> ms div 1000 mod 60 = 0
           \<and> ms mod 1000 = 0)"
    using assms(1-4) t(1) r by simp
  show ?thesis
    unfolding date_of_fields_def prod.case if_P [OF inside] whole
    by (rule TimeClip_of_int) (rule assms(7))
qed

lemma Date_parse_toISOString:
  assumes "\<bar>t\<bar> \<le> 8640000000000000"
  shows "Date_parse (toISOString t) = Some (Date_at t)"
proof -
  obtain y m d where c: "days_to_civil (t div 86400000) = (y, m, d)"
    by (cases "days_to_civil (t div 86400000)") auto
  note r = civil_roundtrip [OF c]
  have ms: "0 \<le> t mod 86400000" "t mod 86400000 < 86400000" by simp_all
  have whole: "civil_to_days y m d * 86400000 + t mod 86400000 = t"
    using r by simp
  from r ms have tf: "time_fields (iso_time m d (t mod 86400000))
        = Some (m, d, t mod 86400000 div 3600000, t mod 86400000 div 60000 mod 60,
                t mod 86400000 div 1000 mod 60, t mod 86400000 mod 1000)"
    by (intro time_fields_iso_time) simp_all
  from r ms assms whole
  have df: "date_of_fields y
              (m, d, t mod 86400000 div 3600000, t mod 86400000 div 60000 mod 60,
               t mod 86400000 div 1000 mod 60, t mod 86400000 mod 1000)
            = Date_at t"
    using date_of_fields_time [of m d "t mod 86400000" y] by simp
  have len: "length (iso_time m d (t mod 86400000)) = 20" by (simp add: iso_time_def)
  from assms have "- 100000000 \<le> t div 86400000" "t div 86400000 \<le> 100000000"
    by linarith+
  then have "- 680 \<le> (t div 86400000 + 719468) div 146097"
    "(t div 86400000 + 719468) div 146097 \<le> 690"
    by linarith+
  with r have yb: "- 999999 \<le> y" "y \<le> 999999" by linarith+
  consider "0 \<le> y \<and> y \<le> 9999" | "9999 < y" | "y < 0" by linarith
  then show ?thesis
  proof cases
    case 1
    then have "number_of_digits (pad 4 y) 0 = Some y" by (simp add: number_of_digits_pad)
    with 1 c tf df len show ?thesis by (simp add: toISOString_def Date_parse_def)
  next
    case 2
    with yb have "number_of_digits (pad 6 \<bar>y\<bar>) 0 = Some y" by (simp add: number_of_digits_pad)
    with 2 c tf df len show ?thesis by (simp add: toISOString_def Date_parse_def)
  next
    case 3
    with yb have "number_of_digits (pad 6 \<bar>y\<bar>) 0 = Some (- y)"
      by (simp add: number_of_digits_pad)
    with 3 c tf df len show ?thesis by (simp add: toISOString_def Date_parse_def)
  qed
qed

subsection \<open>The snapshot is read back\<close>

lemma item_roundtrip:
  assumes "payload_of_json (payload_to_json (data item)) = data item"
    and "valid_Date (addedAt item)" and "finite_number (priority item)"
  shows "item_of_json payload_of_json
           (case item_to_json payload_to_json item of JObject props \<Rightarrow> props | _ \<Rightarrow> [])
         = Some item"
proof -
  from assms(2) obtain t where t: "addedAt item = Date_at t" "\<bar>t\<bar> \<le> 8640000000000000"
    by (cases "addedAt item") (simp_all add: valid_Date_def)
  from assms(3) obtain p where p: "priority item = Finite p"
    by (cases "priority item") (simp_all add: finite_number_def)
  from t have d: "new_Date (Some (toJSON (addedAt item))) = Some (addedAt item)"
    by (simp add: new_Date_def toJSON_def Date_parse_toISOString)
  show ?thesis
    using assms(1) d p
    by (cases "payload_to_json (data item)")
       (simp_all add: item_of_json_def item_to_json_def json_get_def number_to_json_def)
qed

lemma entries_roundtrip:
  assumes "\<forall>item \<in> set (map_values its). payload_of_json (payload_to_json (data item)) = data item"
    and "\<forall>item \<in> set (map_values its). valid_Date (addedAt item) \<and> finite_number (priority item)"
  shows "entries_of_json payload_of_json
           (map (\<lambda>e. JArray [JString (fst e), item_to_json payload_to_json (snd e)]) its)
         = Inr (Some its)"
  using assms
proof (induction its)
  case Nil
  show ?case by simp
next
  case (Cons e its)
  from Cons.prems
  have "item_of_json payload_of_json
          (case item_to_json payload_to_json (snd e) of JObject props \<Rightarrow> props | _ \<Rightarrow> [])
        = Some (snd e)"
    by (intro item_roundtrip) (simp_all add: map_values_def)
  then have "entry_of_json payload_of_json
               (JArray [JString (fst e), item_to_json payload_to_json (snd e)])
             = Inr (Some e)"
    by (simp add: entry_of_json_def item_to_json_def)
  moreover from Cons have "entries_of_json payload_of_json
           (map (\<lambda>e. JArray [JString (fst e), item_to_json payload_to_json (snd e)]) its)
         = Inr (Some its)"
    by (simp add: map_values_def)
  ultimately show ?case by simp
qed

lemma fold_map_set_fresh:
  "distinct (map fst es) \<Longrightarrow> set (map fst es) \<inter> fst ` set m = {} \<Longrightarrow>
   fold (\<lambda>e m. map_set (fst e) (snd e) m) es m = m @ es"
proof (induction es arbitrary: m)
  case Nil
  then show ?case by simp
next
  case (Cons e es)
  then have "fst e \<notin> fst ` set m" by auto
  then have "map_set (fst e) (snd e) m = m @ [e]" by (simp add: map_set_fresh)
  moreover from Cons.prems have "set (map fst es) \<inter> fst ` set (m @ [e]) = {}" by auto
  ultimately show ?case using Cons by simp
qed

lemma new_Map_distinct: "distinct (map fst es) \<Longrightarrow> new_Map es = es"
  by (simp add: new_Map_def fold_map_set_fresh)

lemma fold_set_add_fresh:
  "distinct xs \<Longrightarrow> set xs \<inter> set s = {} \<Longrightarrow> fold set_add xs s = s @ xs"
  by (induction xs arbitrary: s) (auto simp: set_add_def)

lemma new_Set_distinct: "distinct xs \<Longrightarrow> new_Set xs = xs"
  by (simp add: new_Set_def fold_set_add_fresh)

lemma strings_of_json_strings: "strings_of_json (map JString xs) = Some xs"
  by (induction xs) simp_all

lemma iso_examples:
  "toISOString 0 = ''1970-01-01T00:00:00.000Z''"
  "toISOString 1743627600000 = ''2025-04-02T21:00:00.000Z''"
  "toISOString (- 1) = ''1969-12-31T23:59:59.999Z''"
  by code_simp+

lemma Date_parse_examples:
  "Date_parse ''2025-04-02T21:00:00.000Z'' = Some (Date_at 1743627600000)"
  "Date_parse ''1969-12-31T23:59:59.999Z'' = Some (Date_at (- 1))"
  using Date_parse_toISOString [of 1743627600000] Date_parse_toISOString [of "- 1"]
  by (simp_all add: iso_examples)

text \<open>
  C5, as the code has it. Take a map of items with one entry per key and a set of
  identifiers in flight, such that every payload is one that \<open>JSON.stringify\<close> and
  \<open>JSON.parse\<close> give back unchanged, every \<open>addedAt\<close> is a valid \<open>Date\<close> and
  every priority is a finite number. If \<open>save\<close> succeeds and the file can then be read,
  \<open>load\<close> on the same file returns the same map, with the same identifiers, payloads,
  priorities, attempts and instants in the same order, and the same set in flight.
\<close>

theorem save_then_load:
  assumes "save payload_to_json filePath its inflight fs = (Fulfilled (), fs')"
    and "\<not> unreadable fs' filePath"
    and "distinct (map fst its)" and "distinct inflight"
    and "\<forall>item \<in> set (map_values its). payload_of_json (payload_to_json (data item)) = data item"
    and "\<forall>item \<in> set (map_values its). valid_Date (addedAt item) \<and> finite_number (priority item)"
  shows "load payload_of_json filePath fs' = Fulfilled (Some (its, inflight))"
proof -
  let ?snapshot = "JObject [(''items'',
                      JArray (map (\<lambda>e. JArray [JString (fst e),
                                                 item_to_json payload_to_json (snd e)]) its)),
                     (''processing'', JArray (map JString inflight))]"
  from assms(1) have f: "files fs' filePath = Some (Printed ?snapshot)"
    by (auto simp: save_def Let_def split: if_splits)
  show ?thesis
    using assms(2)
    by (simp add: load_def f json_get_def entries_roundtrip [OF assms(5,6)]
        processing_of_json_def strings_of_json_strings new_Map_distinct [OF assms(3)]
        new_Set_distinct [OF assms(4)])
qed

theorem save_then_load_witness:
  "save stringify_value ''q.json'' plain_items [''b''] empty_disk
     = (Fulfilled (), snd (save stringify_value ''q.json'' plain_items [''b''] empty_disk))
   \<and> \<not> unreadable (snd (save stringify_value ''q.json'' plain_items [''b''] empty_disk)) ''q.json''
   \<and> distinct (map fst plain_items) \<and> distinct [''b'']
   \<and> list_all (\<lambda>item. parsed_value (stringify_value (data item)) = data item
                       \<and> valid_Date (addedAt item) \<and> finite_number (priority item))
        (map_values plain_items)
   \<and> load parsed_value ''q.json'' (snd (save stringify_value ''q.json'' plain_items [''b''] empty_disk))
     = Fulfilled (Some (plain_items, [''b'']))"
proof -
  let ?fs = "snd (save stringify_value ''q.json'' plain_items [''b''] empty_disk)"
  have h1: "save stringify_value ''q.json'' plain_items [''b''] empty_disk = (Fulfilled (), ?fs)"
    by (simp add: save_def empty_disk_def Let_def)
  have h2: "\<not> unreadable ?fs ''q.json''"
    by (simp add: save_def empty_disk_def Let_def)
  have h3: "distinct (map fst plain_items)" and h4: "distinct [''b'']"
    by (simp_all add: plain_items_def)
  have h56: "list_all (\<lambda>item. parsed_value (stringify_value (data item)) = data item
                       \<and> valid_Date (addedAt item) \<and> finite_number (priority item))
        (map_values plain_items)"
    by (simp add: plain_items_def map_values_def parsed_value_def valid_Date_def
        finite_number_def)
  then have h5: "\<forall>item \<in> set (map_values plain_items).
              parsed_value (stringify_value (data item)) = data item"
    and h6: "\<forall>item \<in> set (map_values plain_items).
              valid_Date (addedAt item) \<and> finite_number (priority item)"
    by (simp_all add: list_all_iff)
  from save_then_load [OF h1 h2 h3 h4 h5 h6] h1 h2 h3 h4 h56 show ?thesis by simp
qed

text \<open>
  The round trip does not give every state back: a payload that holds a \<open>Date\<close> is
  saved as its ISO string, and the loader turns only \<open>addedAt\<close> back into a \<open>Date\<close>,
  so the payload loaded holds a string.
\<close>

theorem save_then_load_counterexample:
  "save stringify_value ''q.json'' dated_items [] empty_disk
     = (Fulfilled (),
        empty_disk\<lparr>files := (files empty_disk)(''q.json'' \<mapsto> Printed (JObject
          [(''items'', JArray [JArray [JString ''a'', JObject
              [(''id'', JString ''a''),
               (''data'', JObject [(''due'', JString ''1970-01-01T00:00:00.000Z'')]),
               (''addedAt'', JString ''2025-04-02T21:00:00.000Z''),
               (''priority'', JNumber 5),
               (''processingAttempts'', JNumber 1)]]]),
           (''processing'', JArray [])]))\<rparr>)
   \<and> load parsed_value ''q.json'' (snd (save stringify_value ''q.json'' dated_items [] empty_disk))
     = Fulfilled (Some
         ([(''a'', \<lparr>item_id = ''a'',
                    data = VObject [(''due'', VString ''1970-01-01T00:00:00.000Z'')],
                    addedAt = Date_at 1743627600000, priority = Finite 5,
                    processingAttempts = 1\<rparr>)], []))
   \<and> load parsed_value ''q.json'' (snd (save stringify_value ''q.json'' dated_items [] empty_disk))
     \<noteq> Fulfilled (Some (dated_items, []))"
  by (simp add: save_def load_def dated_items_def empty_disk_def item_to_json_def json_get_def
      entry_of_json_def item_of_json_def new_Date_def parsed_value_def processing_of_json_def
      new_Map_def new_Set_def iso_examples Date_parse_examples toJSON_def number_to_json_def
      Let_def)

text \<open>
  The two other conditions are needed as well. A priority \<open>NaN\<close> and an \<open>addedAt\<close>
  that is an \<open>Invalid Date\<close> are both saved as \<open>null\<close>; the loader then builds an
  object whose priority is \<open>null\<close>, which is no number, and the \<open>Date\<close> of \<open>null\<close>
  is the epoch.
\<close>

lemma null_priority_and_date_are_lost:
  "item_to_json stringify_value (snd lossy_item)
     = JObject [(''id'', JString ''n''), (''data'', JString ''Hello''), (''addedAt'', JNull),
                (''priority'', JNull), (''processingAttempts'', JNumber 0)]"
  "new_Date (Some JNull) = Some (Date_at 0)"
  "load parsed_value ''q.json'' (snd (save stringify_value ''q.json'' [lossy_item] [] empty_disk))
     = Fulfilled None"
  by (simp_all add: save_def load_def lossy_item_def empty_disk_def item_to_json_def
      json_get_def entry_of_json_def item_of_json_def new_Date_def parsed_value_def
      processing_of_json_def new_Set_def toJSON_def number_to_json_def Let_def)

subsection \<open>saveAllQueues\<close>

lemma unwritable_saveToStorage:
  "unwritable (snd (saveToStorage payload_to_json q fs)) = unwritable fs"
  by (simp add: saveToStorage_def save_def Let_def split: option.splits)

lemma fst_saveToStorage:
  "fst (saveToStorage payload_to_json q fs) = Fulfilled ()
   \<longleftrightarrow> (\<exists>p. storageAdapter q = Some p \<and> \<not> unwritable fs p)"
  by (auto simp: saveToStorage_def save_def Let_def split: option.splits)

lemma Promise_all_Fulfilled:
  "Promise_all promises = Fulfilled () \<longleftrightarrow> (\<forall>p \<in> set promises. p = Fulfilled ())"
  by (induction promises rule: Promise_all.induct) auto

lemma saveAllQueues_loop_promises:
  "set (fst (saveAllQueues_loop payload_to_json qs promises fs))
   = set promises \<union> (\<lambda>q. fst (saveToStorage payload_to_json q fs)) ` set qs"
proof (induction qs arbitrary: promises fs)
  case Nil
  then show ?case by simp
next
  case (Cons q qs)
  obtain p fs' where s: "saveToStorage payload_to_json q fs = (p, fs')"
    by (cases "saveToStorage payload_to_json q fs")
  then have "unwritable fs' = unwritable fs"
    using unwritable_saveToStorage [of payload_to_json q fs] by simp
  then have "fst (saveToStorage payload_to_json x fs') = fst (saveToStorage payload_to_json x fs)"
    for x
    by (simp add: saveToStorage_def save_def Let_def split: option.splits)
  with s Cons.IH [of "promises @ [p]" fs'] show ?case
    by (auto simp: call_async_def)
qed

lemma saveAllQueues_fulfilled_iff:
  "fst (saveAllQueues payload_to_json mgr fs) = Fulfilled ()
   \<longleftrightarrow> (\<forall>q \<in> set (map_values (queues mgr)).
          \<exists>p. storageAdapter q = Some p \<and> \<not> unwritable fs p)"
proof -
  have "fst (saveAllQueues payload_to_json mgr fs)
        = Promise_all (fst (saveAllQueues_loop payload_to_json (map_values (queues mgr)) [] fs))"
    by (simp add: saveAllQueues_def split: prod.splits)
  then show ?thesis
    by (simp add: Promise_all_Fulfilled saveAllQueues_loop_promises fst_saveToStorage)
qed

lemma load_settled_no_file:
  "storageAdapter q = Some filePath \<Longrightarrow> files fs filePath = None \<Longrightarrow>
   load_settled payload_of_json q fs = Some (q\<lparr>items := [], processing := []\<rparr>)"
  by (simp add: load_settled_def loadFromStorage_def load_def new_Map_def new_Set_def)

text \<open>
  C8 says that \<open>saveAllQueues\<close> persists every registered queue and that the failure
  of one queue to save, also for want of a storage adapter, is caught inside
  \<open>saveAllQueues\<close> and neither aborts nor fails the saving of the others. The code does
  not catch it. The \<open>catch\<close> in the loop never runs, since \<open>saveToStorage\<close> is \<open>async\<close>
  and rejects its promise instead of throwing, so the promise of \<open>saveAllQueues\<close> is
  fulfilled only if every queue has a storage adapter and a file that can be written
  (\<open>saveAllQueues_fulfilled_iff\<close>). With one queue and no storage directory
  \<open>saveAllQueues\<close> rejects with "No storage adapter set". With two queues and a file of
  the first that cannot be written it rejects with the write error, though the snapshot
  of the second queue is written as the claim says; when both files can be written it is
  fulfilled.
\<close>

theorem saveAllQueues_rejects:
  "saveAllQueues stringify_value memory_manager empty_disk = (Rejected NoStorageAdapter, empty_disk)
   \<and> saveAllQueues stringify_value disk_manager locked_disk
       = (Rejected WriteFailed,
          locked_disk\<lparr>files := (files locked_disk)(''data/tasks.json'' \<mapsto> Printed empty_snapshot)\<rparr>)
   \<and> saveAllQueues stringify_value disk_manager empty_disk
       = (Fulfilled (),
          empty_disk\<lparr>files := (files empty_disk)
             (''data/messages.json'' \<mapsto> Printed empty_snapshot,
              ''data/tasks.json'' \<mapsto> Printed empty_snapshot)\<rparr>)"
  by (simp add: saveAllQueues_def memory_manager_def disk_manager_def createQueue_def
      QueueManager_def Queue_def setStorageAdapter_def
      saveToStorage_def save_def call_async_def empty_disk_def locked_disk_def
      empty_snapshot_def map_get_def map_values_def Let_def)

section \<open>Properties of notifications\<close>

lemma emit_two_filtered_first:
  assumes "subscribers oq = [queueSubscriber (recorder a) (Some only_itemAdded),
                             queueSubscriber (recorder b) None]"
    and "ev_type event \<noteq> ItemAdded"
  shows "emit event oq w = w @ [(b, event)]"
  using assms by (simp add: emit_def queueSubscriber_def only_itemAdded_def recorder_def)

lemma emit_two_filtered_second:
  assumes "subscribers oq = [queueSubscriber (recorder b) None,
                             queueSubscriber (recorder a) (Some only_itemAdded)]"
    and "ev_type event \<noteq> ItemAdded"
  shows "emit event oq w = w @ [(b, event)]"
  using assms by (simp add: emit_def queueSubscriber_def only_itemAdded_def recorder_def)

text \<open>
  C3. On a queue with two subscribers, one registered through \<open>subscribeToQueue\<close>
  with \<open>eventTypes = ['itemAdded']\<close> and the other with no options, in either order,
  \<open>complete(i)\<close> on an identifier in flight delivers the \<open>itemProcessed\<close> event to the
  subscriber without a filter (and \<open>queueEmpty\<close> after it when the map is now empty), and
  delivers nothing to the filtered one.
\<close>

theorem filtered_subscriber_misses_itemProcessed:
  assumes "map_get (queueManager svc) name = Some oq"
    and "subscribers oq = []"
    and "set_has (processing (core oq)) i"
    and "a \<noteq> b"
  shows
   "subscribe_both_then_complete name (recorder a, Some only_itemAdded) (recorder b, None)
      now i svc []
    = Some (True, True, True,
            (b, itemProcessed_event now i oq)
            # (if map_delete i (items (core oq)) = []
               then [(b, queueEmpty_event now oq)] else []))
    \<and> subscribe_both_then_complete name (recorder b, None) (recorder a, Some only_itemAdded)
      now i svc []
    = Some (True, True, True,
            (b, itemProcessed_event now i oq)
            # (if map_delete i (items (core oq)) = []
               then [(b, queueEmpty_event now oq)] else []))
    \<and> a \<notin> fst ` set ((b, itemProcessed_event now i oq)
            # (if map_delete i (items (core oq)) = []
               then [(b, queueEmpty_event now oq)] else []))"
proof -
  let ?A = "queueSubscriber (recorder a) (Some only_itemAdded)
            :: ('a, (string \<times> 'a queue_event) list) queue_subscriber"
  let ?B = "queueSubscriber (recorder b) None
            :: ('a, (string \<times> 'a queue_event) list) queue_subscriber"
  have c: "complete i (core oq)
           = (True, (core oq)\<lparr>processing := set_delete i (processing (core oq)),
                              items := map_delete i (items (core oq))\<rparr>)"
    using assms(3) by (simp add: complete_def)
  have t: "ev_type (itemProcessed_event now i x) \<noteq> ItemAdded"
    "ev_type (queueEmpty_event now x) \<noteq> ItemAdded"
    for x :: "('a, (string \<times> 'a queue_event) list) observed_queue"
    by (simp_all add: itemProcessed_event_def queueEmpty_event_def)
  have n: "itemProcessed_event now i (oq\<lparr>subscribers := s\<rparr>) = itemProcessed_event now i oq"
    "queueEmpty_event now (oq\<lparr>subscribers := s\<rparr>) = queueEmpty_event now oq" for s
    by (simp_all add: itemProcessed_event_def queueEmpty_event_def)
  have 1: "complete_observed now i (oq\<lparr>subscribers := [?A, ?B]\<rparr>) []
        = (True,
           oq\<lparr>subscribers := [?A, ?B],
               core := (core oq)\<lparr>processing := set_delete i (processing (core oq)),
                                 items := map_delete i (items (core oq))\<rparr>\<rparr>,
           (b, itemProcessed_event now i oq)
           # (if map_delete i (items (core oq)) = []
              then [(b, queueEmpty_event now oq)] else []))"
    by (simp add: complete_observed_def c Let_def n
        emit_two_filtered_first [where a = a and b = b] t)
  have 2: "complete_observed now i (oq\<lparr>subscribers := [?B, ?A]\<rparr>) []
        = (True,
           oq\<lparr>subscribers := [?B, ?A],
               core := (core oq)\<lparr>processing := set_delete i (processing (core oq)),
                                 items := map_delete i (items (core oq))\<rparr>\<rparr>,
           (b, itemProcessed_event now i oq)
           # (if map_delete i (items (core oq)) = []
              then [(b, queueEmpty_event now oq)] else []))"
    by (simp add: complete_observed_def c Let_def n
        emit_two_filtered_second [where a = a and b = b] t)
  show ?thesis
    using assms(1,2,4) 1 2
    by (auto simp: subscribe_both_then_complete_def subscribeToQueue_def subscribe_def Let_def)
qed

theorem filtered_subscriber_witness:
  "map_get (queueManager watched_service) ''messages''
     = Some \<lparr>core = flight_queue, name_of_queue = ''messages'', subscribers = []\<rparr>
   \<and> set_has (processing flight_queue) ''b''
   \<and> ''logger'' \<noteq> ''audit''
   \<and> subscribe_both_then_complete ''messages'' (recorder ''logger'', Some only_itemAdded)
        (recorder ''audit'', None) 7 ''b'' watched_service []
       = Some (True, True, True,
           [(''audit'',
             \<lparr>ev_type = ItemProcessed, queueName = ''messages'', timestamp = 7,
              ev_data = Some \<lparr>ev_item = Some (example_item ''b'' ''high'' 100 10 0),
                               batchSize = None, remainingItems = None,
                               itemsSinceLastNotification = None\<rparr>\<rparr>)])"
proof -
  let ?oq = "\<lparr>core = flight_queue, name_of_queue = ''messages'', subscribers = []\<rparr>
             :: (string, (string \<times> string queue_event) list) observed_queue"
  have h1: "map_get (queueManager watched_service) ''messages'' = Some ?oq"
    by (simp add: watched_service_def map_get_def)
  have h2: "subscribers ?oq = []" by simp
  have h3: "set_has (processing (core ?oq)) ''b''"
    by (simp add: example_defs set_has_def)
  have h4: "''logger'' \<noteq> ''audit''" by simp
  have e: "itemProcessed_event 7 ''b'' ?oq
           = \<lparr>ev_type = ItemProcessed, queueName = ''messages'', timestamp = 7,
              ev_data = Some \<lparr>ev_item = Some (example_item ''b'' ''high'' 100 10 0),
                               batchSize = None, remainingItems = None,
                               itemsSinceLastNotification = None\<rparr>\<rparr>"
    by (simp add: itemProcessed_event_def example_defs map_get_def)
  have m: "map_delete ''b'' (items (core ?oq)) \<noteq> []"
    by (simp add: example_defs map_delete_def)
  from filtered_subscriber_misses_itemProcessed [OF h1 h2 h3 h4, of 7, THEN conjunct1] h1 h3 m
  show ?thesis by (simp add: e)
qed

end
